theory Spec2Isabelle
  imports Main "HOL-Library.Stream"
begin

section \<open>Data model of the reconciler\<close>

text \<open>
  A column value is a Go \<^verbatim>\<open>*string\<close>: \<open>None\<close> is the nil pointer (SQL NULL),
  \<open>Some s\<close> points to the text \<open>s\<close>. A row is the Go map from field name to such a
  pointer, so a field can be absent from the map, present with NULL, or present with a text.
\<close>

type_synonym val = "string option"

record rowData =
  Values :: "string \<rightharpoonup> val"

datatype ConflictStrategy = UseA | UseB | AskUser

record MergeConfig =
  DSN :: string
  TableA :: string
  TableB :: string
  TableC :: string
  KeyFields :: "string list"
  IgnoreFieldsA :: "string list"
  IgnoreFieldsB :: "string list"
  Strategy :: ConflictStrategy
  BatchSize :: int

text \<open>
  The counters of \<^verbatim>\<open>MergeStats\<close>; the two time stamps are left out. A counter
  is a Go \<^verbatim>\<open>int\<close> that counts rows or fields held in memory, far below \<open>2^63\<close>, so
  it is a natural number here.
\<close>

record MergeStats =
  TotalA :: nat
  TotalB :: nat
  TotalC :: nat
  ExactMatch :: nat
  OnlyInA :: nat
  OnlyInB :: nat
  Conflict :: nat
  NullAutoFilled :: nat
  ConflictUseA :: nat
  ConflictUseB :: nat

definition emptyStats :: MergeStats where
  "emptyStats = \<lparr>TotalA = 0, TotalB = 0, TotalC = 0, ExactMatch = 0, OnlyInA = 0,
     OnlyInB = 0, Conflict = 0, NullAutoFilled = 0, ConflictUseA = 0, ConflictUseB = 0\<rparr>"

text \<open>
  The standard input behind \<^verbatim>\<open>stdinReader\<close> is the sequence of results that the
  successive calls of \<^verbatim>\<open>ReadString('\n')\<close> return: \<open>Inr line\<close> is a line read
  (delimiter included), \<open>Inl e\<close> is a read that returned the error \<open>e\<close>.
\<close>

type_synonym reader = "(string + string) stream"

record Merger =
  config :: MergeConfig
  stats :: MergeStats
  fieldNamesA :: "string list"
  fieldNamesB :: "string list"
  fieldNamesC :: "string list"
  ignoreSetA :: "string \<rightharpoonup> bool"
  ignoreSetB :: "string \<rightharpoonup> bool"
  compareFields :: "string list"
  bFieldInC :: "string \<rightharpoonup> bool"
  stdinReader :: reader

section \<open>Helpers\<close>

text \<open>Reading a Go \<^verbatim>\<open>map[string]bool\<close>: an absent key reads as \<open>false\<close>.\<close>

definition isSet :: "(string \<rightharpoonup> bool) \<Rightarrow> string \<Rightarrow> bool" where
  "isSet s f = (case s f of None \<Rightarrow> False | Some b \<Rightarrow> b)"

text \<open>Reading \<^verbatim>\<open>row.Values[f]\<close> without the presence flag: an absent key reads as nil.\<close>

definition getVal :: "rowData \<Rightarrow> string \<Rightarrow> val" where
  "getVal row f = (case Values row f of None \<Rightarrow> None | Some v \<Rightarrow> v)"

fun valuesEqual :: "val \<Rightarrow> val \<Rightarrow> bool" where
  "valuesEqual None None = True"
| "valuesEqual None (Some b) = False"
| "valuesEqual (Some a) None = False"
| "valuesEqual (Some a) (Some b) = (a = b)"

fun isNullOrEmpty :: "val \<Rightarrow> bool" where
  "isNullOrEmpty None = True"
| "isNullOrEmpty (Some v) = (v = [])"

fun copyStringPtr :: "val \<Rightarrow> val" where
  "copyStringPtr None = None"
| "copyStringPtr (Some s) = Some s"

definition strPtr :: "string \<Rightarrow> val" where
  "strPtr s = Some s"

text \<open>\<^verbatim>\<open>strings.Join\<close>.\<close>

fun Join :: "string list \<Rightarrow> string \<Rightarrow> string" where
  "Join [] sep = []"
| "Join [x] sep = x"
| "Join (x # y # ys) sep = x @ sep @ Join (y # ys) sep"

section \<open>NewMerger\<close>

definition NewMerger :: "MergeConfig \<Rightarrow> reader \<Rightarrow> Merger" where
  "NewMerger cfg stdin =
     (let cfg1 = (if BatchSize cfg \<le> 0 then cfg\<lparr>BatchSize := 500\<rparr> else cfg) in
      \<lparr>config = cfg1, stats = emptyStats,
       fieldNamesA = [], fieldNamesB = [], fieldNamesC = [],
       ignoreSetA = fold (\<lambda>f s. s(f \<mapsto> True)) (IgnoreFieldsA cfg1) Map.empty,
       ignoreSetB = fold (\<lambda>f s. s(f \<mapsto> True)) (IgnoreFieldsB cfg1) Map.empty,
       compareFields = [], bFieldInC = Map.empty, stdinReader = stdin\<rparr>)"

section \<open>buildKey\<close>

definition nullKeyPart :: string where
  "nullKeyPart = CHR 0x00 # ''<NULL>'' @ [CHR 0x00]"

definition keySeparator :: string where
  "keySeparator = CHR 0x01 # ''@@'' @ [CHR 0x01]"

definition buildKey :: "Merger \<Rightarrow> rowData \<Rightarrow> string" where
  "buildKey m row =
     Join (map (\<lambda>kf. case getVal row kf of None \<Rightarrow> nullKeyPart | Some v \<Rightarrow> v)
             (KeyFields (config m))) keySeparator"

section \<open>The three record builders\<close>

text \<open>
  The loop shared by the builders: for each field of the output schema, copy the value the
  source map holds, or store NULL when the source map has no such field.
\<close>

definition copyFromRow :: "rowData \<Rightarrow> string \<Rightarrow> (string \<rightharpoonup> val) \<Rightarrow> (string \<rightharpoonup> val)" where
  "copyFromRow src f res =
     (case Values src f of Some v \<Rightarrow> res(f \<mapsto> copyStringPtr v) | None \<Rightarrow> res(f \<mapsto> None))"

definition withMeta :: "(string \<rightharpoonup> val) \<Rightarrow> string \<Rightarrow> bool \<Rightarrow> string \<Rightarrow> (string \<rightharpoonup> val)" where
  "withMeta res source conflict diffFields =
     (let r1 = res(''_source'' \<mapsto> strPtr source);
          r2 = (if conflict then r1(''_conflict'' \<mapsto> strPtr ''1'')
                else r1(''_conflict'' \<mapsto> strPtr ''0''))
      in if diffFields \<noteq> [] then r2(''_diff_fields'' \<mapsto> strPtr diffFields)
         else r2(''_diff_fields'' \<mapsto> None))"

definition buildCRowFromAWithMeta :: "Merger \<Rightarrow> rowData \<Rightarrow> string \<Rightarrow> bool \<Rightarrow> string \<Rightarrow> rowData" where
  "buildCRowFromAWithMeta m rowA source conflict diffFields =
     \<lparr>Values = withMeta (fold (copyFromRow rowA) (fieldNamesC m) Map.empty)
                  source conflict diffFields\<rparr>"

definition copyFromB :: "Merger \<Rightarrow> rowData \<Rightarrow> string \<Rightarrow> (string \<rightharpoonup> val) \<Rightarrow> (string \<rightharpoonup> val)" where
  "copyFromB m rowB f res =
     (if isSet (ignoreSetB m) f then res(f \<mapsto> None)
      else case Values rowB f of
             Some v \<Rightarrow> (if isSet (bFieldInC m) f then res(f \<mapsto> copyStringPtr v)
                        else res(f \<mapsto> None))
           | None \<Rightarrow> res(f \<mapsto> None))"

definition buildCRowFromB :: "Merger \<Rightarrow> rowData \<Rightarrow> rowData" where
  "buildCRowFromB m rowB =
     \<lparr>Values = ((fold (copyFromB m rowB) (fieldNamesC m) Map.empty)
                  (''_source'' \<mapsto> strPtr ''B'', ''_conflict'' \<mapsto> strPtr ''0'',
                   ''_diff_fields'' \<mapsto> None))\<rparr>"

definition buildCRowMerged :: "Merger \<Rightarrow> rowData \<Rightarrow> string \<Rightarrow> bool \<Rightarrow> string \<Rightarrow> rowData" where
  "buildCRowMerged m merged source conflict diffFields =
     \<lparr>Values = withMeta (fold (copyFromRow merged) (fieldNamesC m) Map.empty)
                  source conflict diffFields\<rparr>"

section \<open>The interactive choice\<close>

text \<open>
  \<^verbatim>\<open>strings.TrimSpace\<close> on the bytes of a Go string: it removes the leading and the
  trailing white space of \<^verbatim>\<open>unicode.IsSpace\<close>, listed here by UTF-8 encoding (tab, line
  feed, vertical tab, form feed, carriage return, space, U+0085, U+00A0, U+1680,
  U+2000 to U+200A, U+2028, U+2029, U+202F, U+205F, U+3000).
\<close>

definition spaceEncodings :: "string list" where
  "spaceEncodings =
     [[CHR 0x09], [CHR 0x0A], [CHR 0x0B], [CHR 0x0C], [CHR 0x0D], [CHR 0x20],
      [CHR 0xC2, CHR 0x85], [CHR 0xC2, CHR 0xA0], [CHR 0xE1, CHR 0x9A, CHR 0x80],
      [CHR 0xE2, CHR 0x80, CHR 0x80], [CHR 0xE2, CHR 0x80, CHR 0x81],
      [CHR 0xE2, CHR 0x80, CHR 0x82], [CHR 0xE2, CHR 0x80, CHR 0x83],
      [CHR 0xE2, CHR 0x80, CHR 0x84], [CHR 0xE2, CHR 0x80, CHR 0x85],
      [CHR 0xE2, CHR 0x80, CHR 0x86], [CHR 0xE2, CHR 0x80, CHR 0x87],
      [CHR 0xE2, CHR 0x80, CHR 0x88], [CHR 0xE2, CHR 0x80, CHR 0x89],
      [CHR 0xE2, CHR 0x80, CHR 0x8A], [CHR 0xE2, CHR 0x80, CHR 0xA8],
      [CHR 0xE2, CHR 0x80, CHR 0xA9], [CHR 0xE2, CHR 0x80, CHR 0xAF],
      [CHR 0xE2, CHR 0x81, CHR 0x9F], [CHR 0xE3, CHR 0x80, CHR 0x80]]"

definition leadingLen :: "string list \<Rightarrow> string \<Rightarrow> nat" where
  "leadingLen encs s =
     (case find (\<lambda>p. take (length p) s = p) encs of None \<Rightarrow> 0 | Some p \<Rightarrow> length p)"

function stripLeading :: "string list \<Rightarrow> string \<Rightarrow> string" where
  "stripLeading encs s =
     (if leadingLen encs s = 0 then s else stripLeading encs (drop (leadingLen encs s) s))"
  by pat_completeness auto
termination
proof (relation "measure (\<lambda>(encs, s). length s)")
  show "wf (measure (\<lambda>(encs, s). length s))" by simp
next
  fix encs :: "string list" and s :: string
  assume pos: "leadingLen encs s \<noteq> 0"
  have "s \<noteq> []"
  proof
    assume "s = []"
    then have "leadingLen encs s = 0"
      by (auto simp: leadingLen_def split: option.splits dest: find_Some_iff[THEN iffD1])
    with pos show False by simp
  qed
  with pos show "((encs, drop (leadingLen encs s) s), (encs, s)) \<in> measure (\<lambda>(encs, s). length s)"
    by simp
qed

declare stripLeading.simps [simp del]

definition TrimSpace :: "string \<Rightarrow> string" where
  "TrimSpace s =
     rev (stripLeading (map rev spaceEncodings) (rev (stripLeading spaceEncodings s)))"

text \<open>\<^verbatim>\<open>strings.TrimRight\<close> with a cutset of ASCII characters.\<close>

definition TrimRight :: "string \<Rightarrow> string \<Rightarrow> string" where
  "TrimRight s cutset = rev (dropWhile (\<lambda>c. c \<in> set cutset) (rev s))"

text \<open>
  \<^verbatim>\<open>strings.ToUpper\<close> on the ASCII letters. Bytes outside ASCII are left as they are: Go
  maps them by the Unicode tables, which send no rune other than \<open>a\<close> and \<open>b\<close> to \<open>A\<close>
  and \<open>B\<close>, the only two texts the result is compared with.
\<close>

definition upperChar :: "char \<Rightarrow> char" where
  "upperChar c =
     (let n = (of_char c :: nat) in if 97 \<le> n \<and> n \<le> 122 then char_of (n - 32) else c)"

definition ToUpper :: "string \<Rightarrow> string" where
  "ToUpper s = map upperChar s"

definition normalizeInput :: "string \<Rightarrow> string" where
  "normalizeInput input =
     (let input1 = TrimSpace input;
          input2 = TrimRight input1 [CHR 0x0D, CHR 0x0A]
      in ToUpper (TrimSpace input2))"

text \<open>
  The prompt loop. It has no exit other than a read error or an accepted answer, so it is
  a partial function: \<open>None\<close> is the loop that never returns.
\<close>

partial_function (option) askUserChoice ::
  "Merger \<Rightarrow> string list \<Rightarrow> rowData \<Rightarrow> rowData \<Rightarrow> (ConflictStrategy \<times> Merger) option" where
  "askUserChoice m diffFields rowA rowB =
     (let m' = m\<lparr>stdinReader := stl (stdinReader m)\<rparr> in
      case shd (stdinReader m) of
        Inl err \<Rightarrow> Some (UseA, m')
      | Inr line \<Rightarrow>
          (let input = normalizeInput line in
           if input = ''A'' then Some (UseA, m')
           else if input = ''B'' then Some (UseB, m')
           else askUserChoice m' diffFields rowA rowB))"

section \<open>compareAndMerge\<close>

text \<open>First pass: the differing fields, in the order of the comparison fields.\<close>

definition diffStep :: "Merger \<Rightarrow> rowData \<Rightarrow> rowData \<Rightarrow> string \<Rightarrow> string list \<Rightarrow> string list" where
  "diffStep m rowA rowB f diffFields =
     (if isSet (ignoreSetB m) f then diffFields
      else let valA = getVal rowA f in
           case Values rowB f of
             None \<Rightarrow> diffFields
           | Some valB \<Rightarrow> (if \<not> valuesEqual valA valB then diffFields @ [f] else diffFields))"

definition findDiffFields :: "Merger \<Rightarrow> rowData \<Rightarrow> rowData \<Rightarrow> string list" where
  "findDiffFields m rowA rowB = fold (diffStep m rowA rowB) (compareFields m) []"

text \<open>Second pass: the merged row starts as A's values over the output schema.\<close>

definition mergedFromA :: "Merger \<Rightarrow> rowData \<Rightarrow> rowData" where
  "mergedFromA m rowA = \<lparr>Values = fold (copyFromRow rowA) (fieldNamesC m) Map.empty\<rparr>"

text \<open>
  Third pass: each differing field is resolved automatically or put on the list of fields
  left to the strategy. The state of the loop is the merged row, the merger (for its
  counters), the list \<^verbatim>\<open>manualDiffFields\<close> and \<^verbatim>\<open>autoResolvedCount\<close>.
\<close>

type_synonym classifyState = "rowData \<times> Merger \<times> string list \<times> nat"

definition classifyStep :: "rowData \<Rightarrow> rowData \<Rightarrow> string \<Rightarrow> classifyState \<Rightarrow> classifyState" where
  "classifyStep rowA rowB f st =
     (case st of (merged, m, manualDiffFields, autoResolvedCount) \<Rightarrow>
        (let valA = getVal rowA f in
         case Values rowB f of
           None \<Rightarrow> st
         | Some valB \<Rightarrow>
             (let aIsEmpty = isNullOrEmpty valA; bIsEmpty = isNullOrEmpty valB in
              if aIsEmpty \<and> \<not> bIsEmpty then
                (merged\<lparr>Values := (Values merged)(f \<mapsto> copyStringPtr valB)\<rparr>,
                 m\<lparr>stats := (stats m)\<lparr>NullAutoFilled := NullAutoFilled (stats m) + 1\<rparr>\<rparr>,
                 manualDiffFields, autoResolvedCount + 1)
              else if \<not> aIsEmpty \<and> bIsEmpty then
                (merged, m, manualDiffFields, autoResolvedCount + 1)
              else (merged, m, manualDiffFields @ [f], autoResolvedCount))))"

text \<open>Overwriting the contested fields with B's values when B wins.\<close>

definition overwriteStep :: "rowData \<Rightarrow> string \<Rightarrow> rowData \<Rightarrow> rowData" where
  "overwriteStep rowB f merged =
     (case Values rowB f of
        Some valB \<Rightarrow> merged\<lparr>Values := (Values merged)(f \<mapsto> copyStringPtr valB)\<rparr>
      | None \<Rightarrow> merged)"

text \<open>The \<^verbatim>\<open>switch\<close> on the configured strategy.\<close>

definition chooseByStrategy ::
  "Merger \<Rightarrow> string list \<Rightarrow> rowData \<Rightarrow> rowData \<Rightarrow> (ConflictStrategy \<times> Merger) option" where
  "chooseByStrategy m manualDiffFields rowA rowB =
     (case Strategy (config m) of
        UseA \<Rightarrow> Some (UseA, m)
      | UseB \<Rightarrow> Some (UseB, m)
      | AskUser \<Rightarrow> askUserChoice m manualDiffFields rowA rowB)"

definition compareAndMerge ::
  "Merger \<Rightarrow> rowData \<Rightarrow> rowData \<Rightarrow> string \<Rightarrow> (Merger \<times> rowData) option" where
  "compareAndMerge m rowA rowB key =
     (let diffFields = findDiffFields m rowA rowB in
      if length diffFields = 0 then
        (let m1 = m\<lparr>stats := (stats m)\<lparr>ExactMatch := ExactMatch (stats m) + 1\<rparr>\<rparr>
         in Some (m1, buildCRowFromAWithMeta m1 rowA ''A'' False []))
      else
        (let m1 = m\<lparr>stats := (stats m)\<lparr>Conflict := Conflict (stats m) + 1\<rparr>\<rparr>;
             merged0 = mergedFromA m1 rowA
         in case fold (classifyStep rowA rowB) diffFields (merged0, m1, [], 0) of
              (merged, m2, manualDiffFields, autoResolvedCount) \<Rightarrow>
                if length manualDiffFields = 0 then
                  Some (m2, buildCRowMerged m2 merged ''MERGE_A'' True (Join diffFields '',''))
                else
                  (case chooseByStrategy m2 manualDiffFields rowA rowB of
                     None \<Rightarrow> None
                   | Some (choice, m3) \<Rightarrow>
                       (let diffStr = Join diffFields '','' in
                        if choice = UseA then
                          (let m4 = m3\<lparr>stats := (stats m3)\<lparr>ConflictUseA := ConflictUseA (stats m3) + 1\<rparr>\<rparr>
                           in Some (m4, buildCRowMerged m4 merged ''MERGE_A'' True diffStr))
                        else
                          (let m4 = m3\<lparr>stats := (stats m3)\<lparr>ConflictUseB := ConflictUseB (stats m3) + 1\<rparr>\<rparr>;
                               mergedB = fold (overwriteStep rowB) manualDiffFields merged
                           in Some (m4, buildCRowMerged m4 mergedB ''MERGE_B'' True diffStr))))))"

section \<open>The matching passes of Run\<close>

text \<open>
  Run obtains the column names of A and B and the rows of both tables from the store; the
  steps that follow are modelled here with those results as arguments. First the field
  lists: the output schema is A's, \<^verbatim>\<open>bFieldInC\<close> marks the output fields that B has,
  and the comparison fields are the output fields that are neither key fields nor ignored
  for A.
\<close>

definition prepareFields :: "Merger \<Rightarrow> string list \<Rightarrow> string list \<Rightarrow> Merger" where
  "prepareFields m namesA namesB =
     (let namesC = namesA;
          bFieldSet = fold (\<lambda>f s. s(f \<mapsto> True)) namesB Map.empty;
          keySet = fold (\<lambda>k s. s(k \<mapsto> True)) (KeyFields (config m)) Map.empty
      in m\<lparr>fieldNamesA := namesA, fieldNamesB := namesB, fieldNamesC := namesC,
            bFieldInC := fold (\<lambda>f s. if isSet bFieldSet f then s(f \<mapsto> True) else s)
                           namesC (bFieldInC m),
            compareFields := fold (\<lambda>f cs. if \<not> isSet keySet f \<and> \<not> isSet (ignoreSetA m) f
                                            then cs @ [f] else cs) namesC []\<rparr>)"

text \<open>
  Step 7, the index of B. The Go map holds the pointer \<^verbatim>\<open>&dataB[i]\<close>; the model holds
  the position \<open>i\<close>, which is below \<open>length dataB\<close> since the loop ranges over the slice.
\<close>

definition buildBIndex :: "Merger \<Rightarrow> rowData list \<Rightarrow> (string \<rightharpoonup> nat)" where
  "buildBIndex m dataB =
     fold (\<lambda>i bIndex. bIndex(buildKey m (dataB ! i) \<mapsto> i)) [0..<length dataB] Map.empty"

text \<open>Step 8, one row of A. The state is the merger, the result rows and \<^verbatim>\<open>bMatched\<close>.\<close>

type_synonym passState = "Merger \<times> rowData list \<times> (string \<rightharpoonup> bool)"

definition matchRowA ::
  "(string \<rightharpoonup> nat) \<Rightarrow> rowData list \<Rightarrow> rowData \<Rightarrow> passState \<Rightarrow> passState option" where
  "matchRowA bIndex dataB rowA st =
     (case st of (m, resultRows, bMatched) \<Rightarrow>
        (let keyA = buildKey m rowA in
         case bIndex keyA of
           Some i \<Rightarrow>
             (let bMatched' = bMatched(keyA \<mapsto> True) in
              case compareAndMerge m rowA (dataB ! i) keyA of
                None \<Rightarrow> None
              | Some (m', merged) \<Rightarrow> Some (m', resultRows @ [merged], bMatched'))
         | None \<Rightarrow>
             (let m' = m\<lparr>stats := (stats m)\<lparr>OnlyInA := OnlyInA (stats m) + 1\<rparr>\<rparr>
              in Some (m', resultRows @ [buildCRowFromAWithMeta m' rowA ''A'' False []],
                       bMatched))))"

fun passA :: "(string \<rightharpoonup> nat) \<Rightarrow> rowData list \<Rightarrow> rowData list \<Rightarrow> passState \<Rightarrow> passState option" where
  "passA bIndex dataB [] st = Some st"
| "passA bIndex dataB (rowA # rest) st =
     (case matchRowA bIndex dataB rowA st of
        None \<Rightarrow> None
      | Some st' \<Rightarrow> passA bIndex dataB rest st')"

text \<open>Step 9, the rows found only in B.\<close>

definition onlyInBStep :: "(string \<rightharpoonup> bool) \<Rightarrow> rowData \<Rightarrow> Merger \<times> rowData list \<Rightarrow> Merger \<times> rowData list" where
  "onlyInBStep bMatched rowB st =
     (case st of (m, resultRows) \<Rightarrow>
        (let key = buildKey m rowB in
         if \<not> isSet bMatched key then
           (let m' = m\<lparr>stats := (stats m)\<lparr>OnlyInB := OnlyInB (stats m) + 1\<rparr>\<rparr>
            in (m', resultRows @ [buildCRowFromB m' rowB]))
         else st))"

definition mergeRows :: "Merger \<Rightarrow> rowData list \<Rightarrow> rowData list \<Rightarrow> (Merger \<times> rowData list) option" where
  "mergeRows m dataA dataB =
     (let bIndex = buildBIndex m dataB in
      case passA bIndex dataB dataA (m, [], Map.empty) of
        None \<Rightarrow> None
      | Some (m1, resultRows, bMatched) \<Rightarrow>
          Some (fold (onlyInBStep bMatched) dataB (m1, resultRows)))"

section \<open>batchInsertC\<close>

text \<open>
  The store as batchInsertC sees it. A statement is the INSERT that \<^verbatim>\<open>Exec\<close> receives:
  the table, the column list and one tuple of arguments per row placeholder. The store
  answers each statement by itself: \<open>verdicts db k\<close> is its answer to the \<open>k\<close>-th
  statement it receives, \<open>None\<close> to accept it, \<open>Some e\<close> to reject it with the error
  \<open>e\<close>. An accepted statement appends its tuples to the table and they stay (the code
  opens no transaction); a rejected multi-row INSERT writes nothing.
\<close>

type_synonym tuple = "val list"

record insertStmt =
  intoTable :: string
  columns :: "string list"
  tuples :: "tuple list"

record database =
  tableRows :: "string \<Rightarrow> tuple list"
  execLog :: "insertStmt list"
  verdicts :: "nat \<Rightarrow> string option"

definition Exec :: "database \<Rightarrow> insertStmt \<Rightarrow> database \<times> string option" where
  "Exec db stmt =
     (let verdict = verdicts db (length (execLog db));
          db1 = db\<lparr>execLog := execLog db @ [stmt]\<rparr>
      in case verdict of
           None \<Rightarrow> (db1\<lparr>tableRows := (tableRows db1)
                          (intoTable stmt := tableRows db1 (intoTable stmt) @ tuples stmt)\<rparr>, None)
         | Some e \<Rightarrow> (db1, Some e))"

datatype failure = BatchInsertError string | PanicSliceBounds

text \<open>
  The loop over the batches, with Go's \<^verbatim>\<open>int\<close> as an unbounded integer (the sums stay
  far below \<open>2^63\<close> for any slice that fits in memory). A slice expression with its upper
  bound below its lower bound panics. With a batch size of zero the index never advances, so
  the loop is a partial function.
\<close>

partial_function (option) insertLoop ::
  "Merger \<Rightarrow> string list \<Rightarrow> rowData list \<Rightarrow> int \<Rightarrow> database \<Rightarrow> (failure option \<times> database) option" where
  "insertLoop m allFields rows i db =
     (let batchSize = BatchSize (config m); total = int (length rows) in
      if i < total then
        (let end = (if i + batchSize > total then total else i + batchSize) in
         if i < 0 \<or> end < i then Some (Some PanicSliceBounds, db)
         else
           (let batch = take (nat (end - i)) (drop (nat i) rows);
                stmt = \<lparr>intoTable = TableC (config m), columns = allFields,
                        tuples = map (\<lambda>row. map (getVal row) allFields) batch\<rparr>
            in case Exec db stmt of
                 (db', Some err) \<Rightarrow> Some (Some (BatchInsertError err), db')
               | (db', None) \<Rightarrow> insertLoop m allFields rows (i + batchSize) db'))
      else Some (None, db))"

definition batchInsertC :: "Merger \<Rightarrow> rowData list \<Rightarrow> database \<Rightarrow> (failure option \<times> database) option" where
  "batchInsertC m rows db =
     (if length rows = 0 then Some (None, db)
      else insertLoop m (fieldNamesC m @ [''_source'', ''_conflict'', ''_diff_fields'']) rows 0 db)"

section \<open>Run\<close>

text \<open>
  Run from the reset of the counters on, given what the store returned: the column names of
  A and B (the auto-increment id left out), the rows of A and B, and the store after table C
  was created anew. The result is the report or the failure, with the merger and the store
  as Run leaves them; \<open>None\<close> is a run that never returns.
\<close>

definition Run ::
  "Merger \<Rightarrow> string list \<Rightarrow> string list \<Rightarrow> rowData list \<Rightarrow> rowData list \<Rightarrow> database
     \<Rightarrow> ((failure + MergeStats) \<times> Merger \<times> database) option" where
  "Run m namesA namesB dataA dataB db =
     (let m0 = m\<lparr>stats := emptyStats\<rparr>;
          m1 = prepareFields m0 namesA namesB;
          m2 = m1\<lparr>stats := (stats m1)\<lparr>TotalA := length dataA\<rparr>\<rparr>;
          m3 = m2\<lparr>stats := (stats m2)\<lparr>TotalB := length dataB\<rparr>\<rparr>
      in case mergeRows m3 dataA dataB of
           None \<Rightarrow> None
         | Some (m4, resultRows) \<Rightarrow>
             (case batchInsertC m4 resultRows db of
                None \<Rightarrow> None
              | Some (Some err, db') \<Rightarrow> Some (Inl err, m4, db')
              | Some (None, db') \<Rightarrow>
                  (let m5 = m4\<lparr>stats := (stats m4)\<lparr>TotalC := length resultRows\<rparr>\<rparr>
                   in Some (Inr (stats m5), m5, db'))))"

section \<open>Notions of the specification\<close>

text \<open>
  The specification's classification of a field of a matched pair. A comparison field
  differs when B does not ignore it, B's row has it, and the two values are not equal.
\<close>

definition fieldDiffers :: "Merger \<Rightarrow> rowData \<Rightarrow> rowData \<Rightarrow> string \<Rightarrow> bool" where
  "fieldDiffers m rowA rowB f =
     (\<not> isSet (ignoreSetB m) f \<and> Values rowB f \<noteq> None \<and> getVal rowA f \<noteq> getVal rowB f)"

text \<open>Auto-fill from B: A's value is NULL or empty and B's is neither.\<close>

definition autoFillFromB :: "rowData \<Rightarrow> rowData \<Rightarrow> string \<Rightarrow> bool" where
  "autoFillFromB rowA rowB f =
     (Values rowB f \<noteq> None \<and> isNullOrEmpty (getVal rowA f) \<and> \<not> isNullOrEmpty (getVal rowB f))"

text \<open>Auto-keep A: B's value is NULL or empty and A's is neither.\<close>

definition autoKeepA :: "rowData \<Rightarrow> rowData \<Rightarrow> string \<Rightarrow> bool" where
  "autoKeepA rowA rowB f =
     (Values rowB f \<noteq> None \<and> \<not> isNullOrEmpty (getVal rowA f) \<and> isNullOrEmpty (getVal rowB f))"

text \<open>
  Contested: neither automatic rule applies. Among differing fields these are the pairs of
  two unequal non-empty values and the pairs of NULL and the empty string.
\<close>

definition contested :: "rowData \<Rightarrow> rowData \<Rightarrow> string \<Rightarrow> bool" where
  "contested rowA rowB f =
     (Values rowB f \<noteq> None \<and> isNullOrEmpty (getVal rowA f) = isNullOrEmpty (getVal rowB f))"

text \<open>
  What the store guarantees about the output schema: no column has the empty name, and no
  column of A bears the name of a provenance column (table C could not be created with the
  same column twice). Run makes every comparison field an output field.
\<close>

definition schemaOK :: "Merger \<Rightarrow> bool" where
  "schemaOK m =
     (set (compareFields m) \<subseteq> set (fieldNamesC m) \<and> [] \<notin> set (fieldNamesC m) \<and>
      ''_source'' \<notin> set (fieldNamesC m) \<and> ''_conflict'' \<notin> set (fieldNamesC m) \<and>
      ''_diff_fields'' \<notin> set (fieldNamesC m))"

text \<open>
  A result of reading the input decides the prompt when it is an error or a line that
  normalizes to \<open>A\<close> or \<open>B\<close>; \<open>verdict\<close> is the winner it stands for.
\<close>

definition decisive :: "string + string \<Rightarrow> bool" where
  "decisive r =
     (case r of Inl e \<Rightarrow> True
      | Inr line \<Rightarrow> normalizeInput line = ''A'' \<or> normalizeInput line = ''B'')"

definition verdict :: "string + string \<Rightarrow> ConflictStrategy" where
  "verdict r =
     (case r of Inl e \<Rightarrow> UseA
      | Inr line \<Rightarrow> if normalizeInput line = ''A'' then UseA else UseB)"

text \<open>The input answers the prompt: under the interactive strategy some result decides.\<close>

definition answers :: "Merger \<Rightarrow> bool" where
  "answers m = (Strategy (config m) = AskUser \<longrightarrow> (\<exists>i. decisive (stdinReader m !! i)))"

text \<open>The invariant of the provenance columns of an output record.\<close>

definition provenanceOK :: "rowData \<Rightarrow> bool" where
  "provenanceOK r =
     (let source = Values r ''_source''; conflict = Values r ''_conflict'';
          diff = Values r ''_diff_fields''
      in (source = Some (Some ''A'') \<or> source = Some (Some ''B'') \<or>
          source = Some (Some ''MERGE_A'') \<or> source = Some (Some ''MERGE_B'')) \<and>
         (conflict = Some (Some ''0'') \<or> conflict = Some (Some ''1'')) \<and>
         (diff = Some None \<or> (\<exists>s. s \<noteq> [] \<and> diff = Some (Some s))) \<and>
         ((conflict = Some (Some ''1'')) =
            (source = Some (Some ''MERGE_A'') \<or> source = Some (Some ''MERGE_B''))) \<and>
         ((conflict = Some (Some ''1'')) = (diff \<noteq> Some None)))"

text \<open>
  The batches of the specification: consecutive slices of \<open>b\<close> records, as many as the
  records need.
\<close>

definition batches :: "nat \<Rightarrow> 'a list \<Rightarrow> 'a list list" where
  "batches b xs = map (\<lambda>j. take b (drop (j * b) xs)) [0..<(length xs + b - 1) div b]"

definition stmtOf :: "Merger \<Rightarrow> rowData list \<Rightarrow> insertStmt" where
  "stmtOf m batch =
     (let allFields = fieldNamesC m @ [''_source'', ''_conflict'', ''_diff_fields'']
      in \<lparr>intoTable = TableC (config m), columns = allFields,
          tuples = map (\<lambda>row. map (getVal row) allFields) batch\<rparr>)"

text \<open>
  The number of statements the store accepts in a row, from its \<open>c\<close>-th statement on and
  among at most \<open>n\<close>.
\<close>

fun accepted :: "(nat \<Rightarrow> string option) \<Rightarrow> nat \<Rightarrow> nat \<Rightarrow> nat" where
  "accepted v c 0 = 0"
| "accepted v c (Suc n) = (if v c = None then Suc (accepted v (Suc c) n) else 0)"

text \<open>One insert per batch, in order, stopping at the first one the store rejects.\<close>

fun runBatches :: "Merger \<Rightarrow> rowData list list \<Rightarrow> database \<Rightarrow> failure option \<times> database" where
  "runBatches m [] db = (None, db)"
| "runBatches m (batch # rest) db =
     (case Exec db (stmtOf m batch) of
        (db', Some e) \<Rightarrow> (Some (BatchInsertError e), db')
      | (db', None) \<Rightarrow> runBatches m rest db')"

text \<open>The merged row after the automatic resolutions of the fields \<open>fs\<close>.\<close>

definition mergedAfter :: "rowData \<Rightarrow> rowData \<Rightarrow> string list \<Rightarrow> rowData \<Rightarrow> rowData" where
  "mergedAfter a b fs mg =
     mg\<lparr>Values := (\<lambda>f. if f \<in> set (filter (autoFillFromB a b) fs) then Some (getVal b f)
                         else Values mg f)\<rparr>"

text \<open>The counter updates of compareAndMerge.\<close>

definition bumpAutoFilled :: "nat \<Rightarrow> Merger \<Rightarrow> Merger" where
  "bumpAutoFilled n m = m\<lparr>stats := (stats m)\<lparr>NullAutoFilled := NullAutoFilled (stats m) + n\<rparr>\<rparr>"

definition countConflict :: "Merger \<Rightarrow> Merger" where
  "countConflict m = m\<lparr>stats := (stats m)\<lparr>Conflict := Conflict (stats m) + 1\<rparr>\<rparr>"

text \<open>The merger, the merged row and the contested fields as the third pass leaves them.\<close>

definition afterClassify :: "Merger \<Rightarrow> rowData \<Rightarrow> rowData \<Rightarrow> Merger" where
  "afterClassify m rowA rowB =
     bumpAutoFilled (length (filter (autoFillFromB rowA rowB) (findDiffFields m rowA rowB)))
       (countConflict m)"

definition mergedAuto :: "Merger \<Rightarrow> rowData \<Rightarrow> rowData \<Rightarrow> rowData" where
  "mergedAuto m rowA rowB = mergedAfter rowA rowB (findDiffFields m rowA rowB) (mergedFromA m rowA)"

definition contestedFields :: "Merger \<Rightarrow> rowData \<Rightarrow> rowData \<Rightarrow> string list" where
  "contestedFields m rowA rowB = filter (contested rowA rowB) (findDiffFields m rowA rowB)"

text \<open>
  Two states of the merger that differ at most in the counters and in the position in the
  input: what the matching passes leave unchanged.
\<close>

definition sameSetup :: "Merger \<Rightarrow> Merger \<Rightarrow> bool" where
  "sameSetup m m' =
     (config m' = config m \<and> fieldNamesA m' = fieldNamesA m \<and> fieldNamesB m' = fieldNamesB m \<and>
      fieldNamesC m' = fieldNamesC m \<and> ignoreSetA m' = ignoreSetA m \<and>
      ignoreSetB m' = ignoreSetB m \<and> compareFields m' = compareFields m \<and>
      bFieldInC m' = bFieldInC m)"

definition bumpOnlyInB :: "nat \<Rightarrow> Merger \<Rightarrow> Merger" where
  "bumpOnlyInB n m = m\<lparr>stats := (stats m)\<lparr>OnlyInB := OnlyInB (stats m) + n\<rparr>\<rparr>"

text \<open>The rows of B whose key is the key of no row of A.\<close>

definition unmatchedB :: "Merger \<Rightarrow> rowData list \<Rightarrow> rowData list \<Rightarrow> rowData list" where
  "unmatchedB m dataA dataB =
     filter (\<lambda>rowB. buildKey m rowB \<notin> buildKey m ` set dataA) dataB"

section \<open>Example data\<close>

definition mkRow :: "(string \<times> val) list \<Rightarrow> rowData" where
  "mkRow kvs = \<lparr>Values = map_of kvs\<rparr>"

definition exampleConfig :: "ConflictStrategy \<Rightarrow> MergeConfig" where
  "exampleConfig s =
     \<lparr>DSN = ''dsn'', TableA = ''ta'', TableB = ''tb'', TableC = ''tc'', KeyFields = [''k''],
      IgnoreFieldsA = [], IgnoreFieldsB = [], Strategy = s, BatchSize = 2\<rparr>"

definition exampleMerger :: "ConflictStrategy \<Rightarrow> reader \<Rightarrow> Merger" where
  "exampleMerger s stdin =
     prepareFields (NewMerger (exampleConfig s) stdin)
       [''k'', ''x'', ''y'', ''z''] [''k'', ''x'', ''y'', ''z'']"

definition rowA1 :: rowData where
  "rowA1 = mkRow [(''k'', Some ''1''), (''x'', Some ''p''), (''y'', None), (''z'', Some [])]"

definition rowB1 :: rowData where
  "rowB1 = mkRow [(''k'', Some ''1''), (''x'', Some ''q''), (''y'', Some ''v''), (''z'', None)]"

definition rowA2 :: rowData where
  "rowA2 = mkRow [(''k'', Some ''2''), (''x'', Some ''p''), (''y'', None), (''z'', Some ''s'')]"

definition rowB2 :: rowData where
  "rowB2 = mkRow [(''k'', Some ''2''), (''x'', Some ''p''), (''y'', Some ''v''), (''z'', Some [])]"

definition rowB1old :: rowData where
  "rowB1old = mkRow [(''k'', Some ''1''), (''x'', Some ''old''), (''y'', None), (''z'', None)]"

definition rowB3 :: rowData where
  "rowB3 = mkRow [(''k'', Some ''3''), (''x'', Some ''u''), (''y'', None), (''z'', None)]"

definition rowB3dup :: rowData where
  "rowB3dup = mkRow [(''k'', Some ''3''), (''x'', Some ''w''), (''y'', Some ''t''), (''z'', None)]"

definition exampleDb :: "(nat \<Rightarrow> string option) \<Rightarrow> database" where
  "exampleDb v = \<lparr>tableRows = (\<lambda>t. []), execLog = [], verdicts = v\<rparr>"

definition rows5 :: "rowData list" where
  "rows5 = [rowA1, rowA2, rowB1, rowB2, rowB3]"

text \<open>An input that is closed: every read fails with end of file.\<close>

definition exampleStdin :: reader where
  "exampleStdin = sconst (Inl ''EOF'')"

section \<open>Properties\<close>

subsection \<open>Values, builders and the passes of compareAndMerge\<close>

lemma copyStringPtr_id [simp]: "copyStringPtr v = v"
  by (cases v) auto

lemma valuesEqual_eq: "valuesEqual a b = (a = b)"
  by (cases a; cases b) auto

lemma fold_copyFromRow:
  "fold (copyFromRow src) fs mp f = (if f \<in> set fs then Some (getVal src f) else mp f)"
  by (induction fs arbitrary: mp) (auto simp: copyFromRow_def getVal_def split: option.splits)

lemma fold_diffStep:
  "fold (diffStep m a b) fs acc = acc @ filter (fieldDiffers m a b) fs"
  by (induction fs arbitrary: acc)
     (auto simp: diffStep_def fieldDiffers_def valuesEqual_eq getVal_def Let_def split: option.splits)

lemma findDiffFields_filter:
  "findDiffFields m a b = filter (fieldDiffers m a b) (compareFields m)"
  by (simp add: findDiffFields_def fold_diffStep)

lemma classifyStep_cases:
  "classifyStep a b f (mg, m, man, cnt) =
     (if autoFillFromB a b f then
        (mg\<lparr>Values := (Values mg)(f \<mapsto> getVal b f)\<rparr>, bumpAutoFilled 1 m, man, cnt + 1)
      else if autoKeepA a b f then (mg, m, man, cnt + 1)
      else if contested a b f then (mg, m, man @ [f], cnt)
      else (mg, m, man, cnt))"
  by (auto simp: classifyStep_def autoFillFromB_def autoKeepA_def contested_def getVal_def
        bumpAutoFilled_def Let_def split: option.splits)

lemma classify_fold:
  "fold (classifyStep a b) fs (mg, m, man, cnt) =
     (mergedAfter a b fs mg, bumpAutoFilled (length (filter (autoFillFromB a b) fs)) m,
      man @ filter (contested a b) fs,
      cnt + length (filter (\<lambda>f. autoFillFromB a b f \<or> autoKeepA a b f) fs))"
proof (induction fs arbitrary: mg m man cnt)
  case Nil
  show ?case by (simp add: mergedAfter_def bumpAutoFilled_def)
next
  case (Cons f fs)
  have excl: "autoFillFromB a b f \<Longrightarrow> \<not> contested a b f" "autoKeepA a b f \<Longrightarrow> \<not> contested a b f"
    by (auto simp: autoFillFromB_def autoKeepA_def contested_def)
  show ?case
    apply (simp only: fold_simps classifyStep_cases)
    apply (auto simp: Cons.IH excl mergedAfter_def bumpAutoFilled_def fun_eq_iff)
    done
qed

lemma askUserChoice_decisive_head:
  "decisive (shd (stdinReader m)) \<Longrightarrow>
   askUserChoice m d a b = Some (verdict (shd (stdinReader m)), m\<lparr>stdinReader := stl (stdinReader m)\<rparr>)"
  by (subst askUserChoice.simps)
     (auto simp: decisive_def verdict_def Let_def split: sum.splits)

lemma askUserChoice_skip:
  "\<not> decisive (shd (stdinReader m)) \<Longrightarrow>
   askUserChoice m d a b = askUserChoice (m\<lparr>stdinReader := stl (stdinReader m)\<rparr>) d a b"
  by (subst askUserChoice.simps)
     (auto simp: decisive_def Let_def split: sum.splits)

lemma askUserChoice_decides:
  "(\<forall>i<n. \<not> decisive (stdinReader m !! i)) \<Longrightarrow> decisive (stdinReader m !! n) \<Longrightarrow>
   askUserChoice m d a b =
     Some (verdict (stdinReader m !! n), m\<lparr>stdinReader := sdrop (Suc n) (stdinReader m)\<rparr>)"
proof (induction n arbitrary: m)
  case 0
  then show ?case by (simp add: askUserChoice_decisive_head)
next
  case (Suc n)
  let ?m' = "m\<lparr>stdinReader := stl (stdinReader m)\<rparr>"
  from Suc.prems have nd: "\<not> decisive (shd (stdinReader m))" by (metis snth.simps(1) zero_less_Suc)
  have "\<forall>i<n. \<not> decisive (stdinReader ?m' !! i)" using Suc.prems(1) by auto
  moreover have "decisive (stdinReader ?m' !! n)" using Suc.prems(2) by simp
  ultimately have "askUserChoice ?m' d a b =
     Some (verdict (stdinReader ?m' !! n), ?m'\<lparr>stdinReader := sdrop (Suc n) (stdinReader ?m')\<rparr>)"
    by (rule Suc.IH)
  with nd show ?case by (simp add: askUserChoice_skip)
qed

lemma askUserChoice_Some_decisive:
  assumes "askUserChoice m d a b = Some y"
  shows "\<exists>i. decisive (stdinReader m !! i)"
proof (rule askUserChoice.raw_induct[where P="\<lambda>m d a b y. \<exists>i. decisive (stdinReader m !! i)", OF _ assms], goal_cases)
  case (1 ask m d a b y)
  show ?case
  proof (cases "decisive (shd (stdinReader m))")
    case True
    then have "decisive (stdinReader m !! 0)" by simp
    then show ?thesis by blast
  next
    case False
    with 1(2) have "ask (m\<lparr>stdinReader := stl (stdinReader m)\<rparr>) d a b = Some y"
      by (auto simp: decisive_def Let_def split: sum.splits if_splits)
    then have "\<exists>i. decisive (stdinReader (m\<lparr>stdinReader := stl (stdinReader m)\<rparr>) !! i)"
      by (rule 1(1))
    then obtain i where "decisive (stl (stdinReader m) !! i)" by auto
    then have "decisive (stdinReader m !! Suc i)" by simp
    then show ?thesis by blast
  qed
qed

lemma askUserChoice_diverges:
  "\<forall>i. \<not> decisive (stdinReader m !! i) \<Longrightarrow> askUserChoice m d a b = None"
  using askUserChoice_Some_decisive by (cases "askUserChoice m d a b") blast+

lemma first_decisive:
  assumes "decisive ((r :: reader) !! i)"
  obtains n where "\<forall>j<n. \<not> decisive (r !! j)" and "decisive (r !! n)"
proof -
  let ?n = "LEAST n. decisive (r !! n)"
  have "decisive (r !! ?n)" using assms by (rule LeastI)
  moreover have "\<forall>j<?n. \<not> decisive (r !! j)" using not_less_Least by blast
  ultimately show thesis using that by blast
qed

lemma verdict_cases: "verdict r = UseA \<or> verdict r = UseB"
  by (auto simp: verdict_def split: sum.splits)

lemma chooseByStrategy_returns:
  assumes "answers m"
  shows "\<exists>c m'. chooseByStrategy m fs a b = Some (c, m')"
proof (cases "Strategy (config m)")
  case UseA
  then show ?thesis by (simp add: chooseByStrategy_def)
next
  case UseB
  then show ?thesis by (simp add: chooseByStrategy_def)
next
  case AskUser
  with assms obtain i where "decisive (stdinReader m !! i)" by (auto simp: answers_def)
  then obtain n where n: "\<forall>j<n. \<not> decisive (stdinReader m !! j)" "decisive (stdinReader m !! n)"
    by (rule first_decisive)
  have "chooseByStrategy m fs a b = askUserChoice m fs a b"
    using AskUser by (simp add: chooseByStrategy_def)
  then show ?thesis
    unfolding askUserChoice_decides[OF n] by blast
qed

lemma askUserChoice_Some:
  assumes "askUserChoice m d a b = Some (c, m')"
  obtains n where "\<forall>j<n. \<not> decisive (stdinReader m !! j)" and "decisive (stdinReader m !! n)"
    and "c = verdict (stdinReader m !! n)" and "m' = m\<lparr>stdinReader := sdrop (Suc n) (stdinReader m)\<rparr>"
proof -
  from askUserChoice_Some_decisive[OF assms] obtain i where "decisive (stdinReader m !! i)" ..
  then obtain n where n: "\<forall>j<n. \<not> decisive (stdinReader m !! j)" "decisive (stdinReader m !! n)"
    by (rule first_decisive)
  from askUserChoice_decides[OF n, of d a b] assms
  have "c = verdict (stdinReader m !! n)" "m' = m\<lparr>stdinReader := sdrop (Suc n) (stdinReader m)\<rparr>"
    by simp_all
  with n show thesis using that by blast
qed

lemma chooseByStrategy_Some:
  assumes "chooseByStrategy m fs a b = Some (c, m')"
  shows "(c = UseA \<or> c = UseB) \<and> m' = m\<lparr>stdinReader := stdinReader m'\<rparr>"
proof (cases "Strategy (config m)")
  case UseA
  with assms show ?thesis by (auto simp: chooseByStrategy_def)
next
  case UseB
  with assms show ?thesis by (auto simp: chooseByStrategy_def)
next
  case AskUser
  with assms have "askUserChoice m fs a b = Some (c, m')" by (simp add: chooseByStrategy_def)
  then obtain n where "c = verdict (stdinReader m !! n)"
    and "m' = m\<lparr>stdinReader := sdrop (Suc n) (stdinReader m)\<rparr>"
    by (rule askUserChoice_Some)
  then show ?thesis using verdict_cases by auto
qed

lemma fold_overwriteStep:
  "fold (overwriteStep b) fs mg =
     mg\<lparr>Values := (\<lambda>f. if f \<in> set fs \<and> Values b f \<noteq> None then Some (getVal b f)
                         else Values mg f)\<rparr>"
  by (induction fs arbitrary: mg) (auto simp: overwriteStep_def getVal_def fun_eq_iff split: option.splits)

lemma withMeta_source: "withMeta res src c d ''_source'' = Some (Some src)"
  by (simp add: withMeta_def strPtr_def Let_def)

lemma withMeta_conflict: "withMeta res src c d ''_conflict'' = Some (Some (if c then ''1'' else ''0''))"
  by (simp add: withMeta_def strPtr_def Let_def)

lemma withMeta_diff: "withMeta res src c d ''_diff_fields'' = Some (if d \<noteq> [] then Some d else None)"
  by (simp add: withMeta_def strPtr_def Let_def)

lemma withMeta_other:
  "f \<noteq> ''_source'' \<Longrightarrow> f \<noteq> ''_conflict'' \<Longrightarrow> f \<noteq> ''_diff_fields'' \<Longrightarrow>
   withMeta res src c d f = res f"
  by (simp add: withMeta_def Let_def)

lemma Join_nonempty: "fs \<noteq> [] \<Longrightarrow> [] \<notin> set fs \<Longrightarrow> Join fs sep \<noteq> []"
  by (induction fs sep rule: Join.induct) auto

lemma buildCRowMerged_field:
  "f \<in> set (fieldNamesC m) \<Longrightarrow> f \<noteq> ''_source'' \<Longrightarrow> f \<noteq> ''_conflict'' \<Longrightarrow> f \<noteq> ''_diff_fields'' \<Longrightarrow>
   Values (buildCRowMerged m mg src c d) f = Some (getVal mg f)"
  by (simp add: buildCRowMerged_def withMeta_other fold_copyFromRow)

lemma buildCRowFromAWithMeta_field:
  "f \<in> set (fieldNamesC m) \<Longrightarrow> f \<noteq> ''_source'' \<Longrightarrow> f \<noteq> ''_conflict'' \<Longrightarrow> f \<noteq> ''_diff_fields'' \<Longrightarrow>
   Values (buildCRowFromAWithMeta m rowA src c d) f = Some (getVal rowA f)"
  by (simp add: buildCRowFromAWithMeta_def withMeta_other fold_copyFromRow)

lemma getVal_mergedFromA:
  "f \<in> set (fieldNamesC m) \<Longrightarrow> getVal (mergedFromA m rowA) f = getVal rowA f"
  by (simp add: mergedFromA_def getVal_def fold_copyFromRow)

lemma buildCRowMerged_stats [simp]:
  "buildCRowMerged (m\<lparr>stats := s\<rparr>) = buildCRowMerged m"
  by (simp add: buildCRowMerged_def fun_eq_iff)

lemma buildCRowMerged_reader [simp]:
  "buildCRowMerged (m\<lparr>stdinReader := r\<rparr>) = buildCRowMerged m"
  by (simp add: buildCRowMerged_def fun_eq_iff)

lemma buildCRowFromAWithMeta_stats [simp]:
  "buildCRowFromAWithMeta (m\<lparr>stats := s\<rparr>) = buildCRowFromAWithMeta m"
  by (simp add: buildCRowFromAWithMeta_def fun_eq_iff)

lemma mergedFromA_stats [simp]: "mergedFromA (m\<lparr>stats := s\<rparr>) = mergedFromA m"
  by (simp add: mergedFromA_def fun_eq_iff)

lemma buildCRowMerged_bump [simp]: "buildCRowMerged (bumpAutoFilled n m) = buildCRowMerged m"
  by (simp add: bumpAutoFilled_def)

lemma classify_result:
  "fold (classifyStep a b) (findDiffFields m a b)
     (mergedFromA (m\<lparr>stats := (stats m)\<lparr>Conflict := Conflict (stats m) + 1\<rparr>\<rparr>) a,
      m\<lparr>stats := (stats m)\<lparr>Conflict := Conflict (stats m) + 1\<rparr>\<rparr>, [], 0) =
   (mergedAuto m a b, afterClassify m a b, contestedFields m a b,
    length (filter (\<lambda>f. autoFillFromB a b f \<or> autoKeepA a b f) (findDiffFields m a b)))"
  by (simp add: classify_fold mergedAuto_def afterClassify_def contestedFields_def countConflict_def)

lemma compareAndMerge_exact:
  "findDiffFields m a b = [] \<Longrightarrow>
   compareAndMerge m a b k =
     Some (m\<lparr>stats := (stats m)\<lparr>ExactMatch := ExactMatch (stats m) + 1\<rparr>\<rparr>,
           buildCRowFromAWithMeta m a ''A'' False [])"
  by (simp add: compareAndMerge_def)

lemma afterClassify_setup: "afterClassify m a b = m\<lparr>stats := stats (afterClassify m a b)\<rparr>"
  by (simp add: afterClassify_def countConflict_def bumpAutoFilled_def)

lemma compareAndMerge_auto:
  assumes "findDiffFields m a b \<noteq> []" and "contestedFields m a b = []"
  shows "compareAndMerge m a b k =
     Some (afterClassify m a b,
           buildCRowMerged m (mergedAuto m a b) ''MERGE_A'' True (Join (findDiffFields m a b) '',''))"
proof -
  have "buildCRowMerged (afterClassify m a b) = buildCRowMerged m"
    by (subst afterClassify_setup) simp
  with assms show ?thesis
    unfolding compareAndMerge_def Let_def classify_result by simp
qed

lemma compareAndMerge_contested:
  assumes ne: "contestedFields m a b \<noteq> []"
  shows "compareAndMerge m a b k =
     (case chooseByStrategy (afterClassify m a b) (contestedFields m a b) a b of
        None \<Rightarrow> None
      | Some (choice, m3) \<Rightarrow>
          if choice = UseA then
            Some (m3\<lparr>stats := (stats m3)\<lparr>ConflictUseA := ConflictUseA (stats m3) + 1\<rparr>\<rparr>,
                  buildCRowMerged m (mergedAuto m a b) ''MERGE_A'' True (Join (findDiffFields m a b) '',''))
          else
            Some (m3\<lparr>stats := (stats m3)\<lparr>ConflictUseB := ConflictUseB (stats m3) + 1\<rparr>\<rparr>,
                  buildCRowMerged m (fold (overwriteStep b) (contestedFields m a b) (mergedAuto m a b))
                    ''MERGE_B'' True (Join (findDiffFields m a b) '','')))"
proof -
  from ne have d: "findDiffFields m a b \<noteq> []" by (auto simp: contestedFields_def)
  have same: "buildCRowMerged m3 = buildCRowMerged m"
    if "chooseByStrategy (afterClassify m a b) fs a b = Some (c, m3)" for fs c m3
  proof -
    from chooseByStrategy_Some[OF that] have "m3 = (afterClassify m a b)\<lparr>stdinReader := stdinReader m3\<rparr>"
      by simp
    then have "buildCRowMerged m3 = buildCRowMerged (afterClassify m a b)"
      by (metis buildCRowMerged_reader)
    also have "\<dots> = buildCRowMerged m"
      by (subst afterClassify_setup) simp
    finally show ?thesis .
  qed
  show ?thesis
  proof (cases "chooseByStrategy (afterClassify m a b) (contestedFields m a b) a b")
    case None
    with ne d show ?thesis
      unfolding compareAndMerge_def Let_def classify_result by simp
  next
    case (Some p)
    obtain c m3 where p: "p = (c, m3)" by (cases p)
    from Some p have s: "buildCRowMerged m3 = buildCRowMerged m" using same by blast
    from ne d Some show ?thesis
      unfolding compareAndMerge_def Let_def classify_result p by (simp add: s)
  qed
qed

lemma exampleMerger_simps:
  "compareFields (exampleMerger s r) = [''x'', ''y'', ''z'']"
  "fieldNamesC (exampleMerger s r) = [''k'', ''x'', ''y'', ''z'']"
  "ignoreSetB (exampleMerger s r) = Map.empty"
  "Strategy (config (exampleMerger s r)) = s"
  "KeyFields (config (exampleMerger s r)) = [''k'']"
  "stdinReader (exampleMerger s r) = r"
  "stats (exampleMerger s r) = emptyStats"
  by (simp_all add: exampleMerger_def prepareFields_def NewMerger_def exampleConfig_def isSet_def Let_def)

lemma example_rows:
  "getVal rowA1 ''x'' = Some ''p''" "getVal rowA1 ''y'' = None" "getVal rowA1 ''z'' = Some []"
  "getVal rowB1 ''x'' = Some ''q''" "getVal rowB1 ''y'' = Some ''v''" "getVal rowB1 ''z'' = None"
  "Values rowB1 ''x'' = Some (Some ''q'')" "Values rowB1 ''y'' = Some (Some ''v'')" "Values rowB1 ''z'' = Some None"
  "Values rowA1 ''x'' = Some (Some ''p'')" "Values rowA1 ''y'' = Some None" "Values rowA1 ''z'' = Some (Some [])"
  "getVal rowA1 ''k'' = Some ''1''" "getVal rowB1 ''k'' = Some ''1''"
  "getVal rowA2 ''x'' = Some ''p''" "getVal rowA2 ''y'' = None" "getVal rowA2 ''z'' = Some ''s''"
  "getVal rowB2 ''x'' = Some ''p''" "getVal rowB2 ''y'' = Some ''v''" "getVal rowB2 ''z'' = Some []"
  "Values rowB2 ''x'' = Some (Some ''p'')" "Values rowB2 ''y'' = Some (Some ''v'')" "Values rowB2 ''z'' = Some (Some [])"
  by (simp_all add: rowA1_def rowB1_def rowA2_def rowB2_def mkRow_def getVal_def)

lemma example_diffs:
  "findDiffFields (exampleMerger s r) rowA1 rowB1 = [''x'', ''y'', ''z'']"
  "findDiffFields (exampleMerger s r) rowA1 rowA1 = []"
  "findDiffFields (exampleMerger s r) rowA2 rowB2 = [''y'', ''z'']"
  by (simp_all add: findDiffFields_filter fieldDiffers_def exampleMerger_simps example_rows isSet_def)

lemma example_schemaOK: "schemaOK (exampleMerger s r)"
  by (simp add: schemaOK_def exampleMerger_simps)

lemma NewMerger_ignoreSetB:
  "isSet (ignoreSetB (NewMerger cfg stdin)) g = (g \<in> set (IgnoreFieldsB cfg))"
proof -
  have "isSet (fold (\<lambda>f s. s(f \<mapsto> True)) fs s0) g = (g \<in> set fs \<or> isSet s0 g)" for fs s0
    by (induction fs arbitrary: s0) (auto simp: isSet_def)
  then show ?thesis by (simp add: NewMerger_def Let_def isSet_def)
qed

subsection \<open>The outcome of a pair with differences\<close>

lemma afterClassify_simps [simp]:
  "config (afterClassify m a b) = config m"
  "stdinReader (afterClassify m a b) = stdinReader m"
  "fieldNamesC (afterClassify m a b) = fieldNamesC m"
  "ConflictUseA (stats (afterClassify m a b)) = ConflictUseA (stats m)"
  "ConflictUseB (stats (afterClassify m a b)) = ConflictUseB (stats m)"
  "Conflict (stats (afterClassify m a b)) = Conflict (stats m) + 1"
  "NullAutoFilled (stats (afterClassify m a b)) =
     NullAutoFilled (stats m) + length (filter (autoFillFromB a b) (findDiffFields m a b))"
  by (simp_all add: afterClassify_def countConflict_def bumpAutoFilled_def)

lemma answers_afterClassify [simp]: "answers (afterClassify m a b) = answers m"
  by (simp add: answers_def)

lemma differs_present: "f \<in> set (findDiffFields m a b) \<Longrightarrow> Values b f \<noteq> None"
  by (simp add: findDiffFields_filter fieldDiffers_def)

lemma diff_in_schema: "schemaOK m \<Longrightarrow> f \<in> set (findDiffFields m a b) \<Longrightarrow> f \<in> set (fieldNamesC m)"
  by (auto simp: findDiffFields_filter schemaOK_def)

lemma schema_not_meta:
  "schemaOK m \<Longrightarrow> f \<in> set (fieldNamesC m) \<Longrightarrow>
   f \<noteq> ''_source'' \<and> f \<noteq> ''_conflict'' \<and> f \<noteq> ''_diff_fields''"
  by (auto simp: schemaOK_def)

lemma diffStr_nonempty_compare:
  "[] \<notin> set (compareFields m) \<Longrightarrow> findDiffFields m a b \<noteq> [] \<Longrightarrow>
   Join (findDiffFields m a b) sep \<noteq> []"
  by (rule Join_nonempty) (auto simp: findDiffFields_filter)

lemma diffStr_nonempty:
  "schemaOK m \<Longrightarrow> findDiffFields m a b \<noteq> [] \<Longrightarrow> Join (findDiffFields m a b) sep \<noteq> []"
  by (rule Join_nonempty) (auto simp: findDiffFields_filter schemaOK_def)

lemma getVal_mergedAuto:
  "f \<in> set (fieldNamesC m) \<Longrightarrow>
   getVal (mergedAuto m a b) f =
     (if f \<in> set (findDiffFields m a b) \<and> autoFillFromB a b f then getVal b f else getVal a f)"
  using getVal_mergedFromA[of f m a]
  by (simp add: mergedAuto_def mergedAfter_def getVal_def)

lemma getVal_overwritten:
  "getVal (fold (overwriteStep b) fs mg) f =
     (if f \<in> set fs \<and> Values b f \<noteq> None then getVal b f else getVal mg f)"
  by (auto simp: fold_overwriteStep getVal_def)

lemma buildCRowMerged_meta:
  "Values (buildCRowMerged m mg src c d) ''_source'' = Some (Some src)"
  "Values (buildCRowMerged m mg src c d) ''_conflict'' = Some (Some (if c then ''1'' else ''0''))"
  "Values (buildCRowMerged m mg src c d) ''_diff_fields'' = Some (if d \<noteq> [] then Some d else None)"
  by (simp_all add: buildCRowMerged_def withMeta_source withMeta_conflict withMeta_diff)

lemma contestedFields_iff:
  "f \<in> set (contestedFields m a b) \<longleftrightarrow>
     f \<in> set (findDiffFields m a b) \<and> isNullOrEmpty (getVal a f) = isNullOrEmpty (getVal b f)"
  using differs_present[of f m a b] by (auto simp: contestedFields_def contested_def)

text \<open>The three outcomes of a pair with differences, as the strategy decides.\<close>

lemma compareAndMerge_chosen:
  assumes "contestedFields m a b \<noteq> []"
    and "chooseByStrategy (afterClassify m a b) (contestedFields m a b) a b = Some (c, m3)"
  shows "compareAndMerge m a b k =
     (if c = UseA then
        Some (m3\<lparr>stats := (stats m3)\<lparr>ConflictUseA := ConflictUseA (stats m3) + 1\<rparr>\<rparr>,
              buildCRowMerged m (mergedAuto m a b) ''MERGE_A'' True (Join (findDiffFields m a b) '',''))
      else
        Some (m3\<lparr>stats := (stats m3)\<lparr>ConflictUseB := ConflictUseB (stats m3) + 1\<rparr>\<rparr>,
              buildCRowMerged m (fold (overwriteStep b) (contestedFields m a b) (mergedAuto m a b))
                ''MERGE_B'' True (Join (findDiffFields m a b) '','')))"
  using assms by (simp add: compareAndMerge_contested)

lemma chosen_stats:
  assumes "chooseByStrategy (afterClassify m a b) fs a b = Some (c, m3)"
  shows "stats m3 = stats (afterClassify m a b)"
proof -
  from chooseByStrategy_Some[OF assms]
  have "m3 = (afterClassify m a b)\<lparr>stdinReader := stdinReader m3\<rparr>" by simp
  then have "stats m3 = stats ((afterClassify m a b)\<lparr>stdinReader := stdinReader m3\<rparr>)" by simp
  then show ?thesis by simp
qed

lemma compareAndMerge_returns:
  assumes "answers m"
  shows "\<exists>res. compareAndMerge m a b k = Some res"
proof (cases "findDiffFields m a b = []")
  case True
  then show ?thesis by (simp add: compareAndMerge_exact)
next
  case dne: False
  show ?thesis
  proof (cases "contestedFields m a b = []")
    case True
    with dne show ?thesis by (simp add: compareAndMerge_auto)
  next
    case False
    from assms have "answers (afterClassify m a b)" by simp
    from chooseByStrategy_returns[OF this, of "contestedFields m a b" a b]
    obtain c m3 where "chooseByStrategy (afterClassify m a b) (contestedFields m a b) a b = Some (c, m3)"
      by blast
    from compareAndMerge_chosen[OF False this, of k] show ?thesis by simp
  qed
qed

lemma afterClassify_ExactMatch [simp]:
  "ExactMatch (stats (afterClassify m a b)) = ExactMatch (stats m)"
  by (simp add: afterClassify_def countConflict_def bumpAutoFilled_def)

subsection \<open>The differing fields (C1)\<close>

text \<open>
  C1. The list of differing fields that compareAndMerge computes holds exactly the comparison
  fields, in their order, that B does not ignore, that are present in B's row and whose two
  values are unequal under valuesEqual. Two values are equal iff both are NULL or both are
  texts and the same text, so NULL never equals the empty text. With no differing field the
  result is the exact-match record: source A, conflict 0, no differing fields. With a
  differing field the result is not the exact-match record: it carries this list, joined by
  commas, with source MERGE_A or MERGE_B and conflict 1, the conflict counter grows by one
  and the exact-match counter stays.
\<close>

theorem differing_fields_exact:
  "findDiffFields m rowA rowB =
     filter (\<lambda>f. \<not> isSet (ignoreSetB m) f \<and> Values rowB f \<noteq> None \<and>
                  \<not> valuesEqual (getVal rowA f) (getVal rowB f)) (compareFields m)
   \<and> valuesEqual x y = ((x = None \<and> y = None) \<or> (\<exists>s. x = Some s \<and> y = Some s))
   \<and> \<not> valuesEqual None (Some []) \<and> \<not> valuesEqual (Some []) None
   \<and> isSet (ignoreSetB (NewMerger cfg stdin)) g = (g \<in> set (IgnoreFieldsB cfg))
   \<and> (findDiffFields m rowA rowB = [] \<longrightarrow>
        (\<exists>out. compareAndMerge m rowA rowB key =
                 Some (m\<lparr>stats := (stats m)\<lparr>ExactMatch := ExactMatch (stats m) + 1\<rparr>\<rparr>, out) \<and>
               Values out ''_source'' = Some (Some ''A'') \<and>
               Values out ''_conflict'' = Some (Some ''0'') \<and>
               Values out ''_diff_fields'' = Some None))
   \<and> (findDiffFields m rowA rowB \<noteq> [] \<longrightarrow>
        (answers m \<longrightarrow> (\<exists>res. compareAndMerge m rowA rowB key = Some res)) \<and>
        (\<forall>m' out. compareAndMerge m rowA rowB key = Some (m', out) \<longrightarrow>
           (Values out ''_source'' = Some (Some ''MERGE_A'') \<or>
            Values out ''_source'' = Some (Some ''MERGE_B'')) \<and>
           Values out ''_conflict'' = Some (Some ''1'') \<and>
           Values out ''_diff_fields'' =
             Some (if Join (findDiffFields m rowA rowB) '','' = [] then None
                   else Some (Join (findDiffFields m rowA rowB) '','')) \<and>
           Conflict (stats m') = Conflict (stats m) + 1 \<and>
           ExactMatch (stats m') = ExactMatch (stats m)))"
proof -
  let ?D = "findDiffFields m rowA rowB"
  let ?M = "contestedFields m rowA rowB"
  have "fieldDiffers m rowA rowB = (\<lambda>f. \<not> isSet (ignoreSetB m) f \<and> Values rowB f \<noteq> None \<and>
                  \<not> valuesEqual (getVal rowA f) (getVal rowB f))"
    by (simp add: fun_eq_iff fieldDiffers_def valuesEqual_eq)
  then have 1: "?D =
     filter (\<lambda>f. \<not> isSet (ignoreSetB m) f \<and> Values rowB f \<noteq> None \<and>
                  \<not> valuesEqual (getVal rowA f) (getVal rowB f)) (compareFields m)"
    by (simp add: findDiffFields_filter)
  have 2: "valuesEqual x y = ((x = None \<and> y = None) \<or> (\<exists>s. x = Some s \<and> y = Some s))"
    by (cases x; cases y) auto
  have 3: "?D = [] \<longrightarrow>
        (\<exists>out. compareAndMerge m rowA rowB key =
                 Some (m\<lparr>stats := (stats m)\<lparr>ExactMatch := ExactMatch (stats m) + 1\<rparr>\<rparr>, out) \<and>
               Values out ''_source'' = Some (Some ''A'') \<and>
               Values out ''_conflict'' = Some (Some ''0'') \<and>
               Values out ''_diff_fields'' = Some None)"
    by (simp add: compareAndMerge_exact buildCRowFromAWithMeta_def withMeta_source withMeta_conflict withMeta_diff)
  have 4: "\<exists>res. compareAndMerge m rowA rowB key = Some res" if "answers m"
    using that by (rule compareAndMerge_returns)
  have 5: "(Values out ''_source'' = Some (Some ''MERGE_A'') \<or>
            Values out ''_source'' = Some (Some ''MERGE_B'')) \<and>
           Values out ''_conflict'' = Some (Some ''1'') \<and>
           Values out ''_diff_fields'' =
             Some (if Join ?D '','' = [] then None else Some (Join ?D '','')) \<and>
           Conflict (stats m') = Conflict (stats m) + 1 \<and>
           ExactMatch (stats m') = ExactMatch (stats m)"
    if dne: "?D \<noteq> []" and res: "compareAndMerge m rowA rowB key = Some (m', out)" for m' out
  proof (cases "?M = []")
    case True
    from res compareAndMerge_auto[OF dne True, of key] show ?thesis
      by (auto simp: buildCRowMerged_meta)
  next
    case False
    with res obtain c m3 where
      ch: "chooseByStrategy (afterClassify m rowA rowB) ?M rowA rowB = Some (c, m3)"
      by (auto simp: compareAndMerge_contested split: option.splits)
    have st: "stats m3 = stats (afterClassify m rowA rowB)" using ch by (rule chosen_stats)
    from res compareAndMerge_chosen[OF False ch, of key] show ?thesis
      by (cases "c = UseA") (auto simp: buildCRowMerged_meta st)
  qed
  from 1 2 3 4 5 NewMerger_ignoreSetB[of cfg stdin g] show ?thesis
    by (intro conjI impI allI) simp_all
qed

theorem differing_fields_exact_witness:
  "findDiffFields (exampleMerger UseA exampleStdin) rowA1 rowA1 = [] \<and>
   (\<exists>out. compareAndMerge (exampleMerger UseA exampleStdin) rowA1 rowA1 ''1'' =
            Some ((exampleMerger UseA exampleStdin)\<lparr>stats := emptyStats\<lparr>ExactMatch := 1\<rparr>\<rparr>, out) \<and>
          Values out ''_source'' = Some (Some ''A'') \<and>
          Values out ''_conflict'' = Some (Some ''0'') \<and>
          Values out ''_diff_fields'' = Some None) \<and>
   findDiffFields (exampleMerger UseA exampleStdin) rowA1 rowB1 = [''x'', ''y'', ''z''] \<and>
   (\<exists>m' out. compareAndMerge (exampleMerger UseA exampleStdin) rowA1 rowB1 ''1'' = Some (m', out) \<and>
      (Values out ''_source'' = Some (Some ''MERGE_A'') \<or>
       Values out ''_source'' = Some (Some ''MERGE_B'')) \<and>
      Values out ''_conflict'' = Some (Some ''1'') \<and>
      Values out ''_diff_fields'' = Some (Some ''x,y,z'') \<and>
      Conflict (stats m') = 1 \<and> ExactMatch (stats m') = 0)"
proof -
  let ?m = "exampleMerger UseA exampleStdin"
  have h: "findDiffFields ?m rowA1 rowA1 = []"
    by (simp add: example_diffs)
  have e: "ExactMatch emptyStats = 0" "Conflict emptyStats = 0" by (simp_all add: emptyStats_def)
  from differing_fields_exact[of ?m rowA1 rowA1 None None "exampleConfig UseA" exampleStdin "''x''" "''1''"] h
  have p1: "findDiffFields ?m rowA1 rowA1 = [] \<and>
   (\<exists>out. compareAndMerge ?m rowA1 rowA1 ''1'' =
            Some (?m\<lparr>stats := emptyStats\<lparr>ExactMatch := 1\<rparr>\<rparr>, out) \<and>
          Values out ''_source'' = Some (Some ''A'') \<and>
          Values out ''_conflict'' = Some (Some ''0'') \<and>
          Values out ''_diff_fields'' = Some None)"
    by (simp add: exampleMerger_simps example_diffs e)
  have d: "findDiffFields ?m rowA1 rowB1 = [''x'', ''y'', ''z'']" by (simp add: example_diffs)
  then have dne: "findDiffFields ?m rowA1 rowB1 \<noteq> []" by simp
  have an: "answers ?m" by (simp add: answers_def exampleMerger_simps)
  note inst = differing_fields_exact[of ?m rowA1 rowB1 None None "exampleConfig UseA" exampleStdin "''x''" "''1''",
      THEN conjunct2, THEN conjunct2, THEN conjunct2, THEN conjunct2, THEN conjunct2, THEN conjunct2,
      THEN mp, OF dne]
  from inst[THEN conjunct1] an obtain m' out where
    r: "compareAndMerge ?m rowA1 rowB1 ''1'' = Some (m', out)" by auto
  from inst[THEN conjunct2] r
  have "(Values out ''_source'' = Some (Some ''MERGE_A'') \<or>
       Values out ''_source'' = Some (Some ''MERGE_B'')) \<and>
      Values out ''_conflict'' = Some (Some ''1'') \<and>
      Values out ''_diff_fields'' = Some (Some ''x,y,z'') \<and>
      Conflict (stats m') = 1 \<and> ExactMatch (stats m') = 0"
    by (simp add: d exampleMerger_simps e)
  with r have p2: "\<exists>m' out. compareAndMerge ?m rowA1 rowB1 ''1'' = Some (m', out) \<and>
      (Values out ''_source'' = Some (Some ''MERGE_A'') \<or>
       Values out ''_source'' = Some (Some ''MERGE_B'')) \<and>
      Values out ''_conflict'' = Some (Some ''1'') \<and>
      Values out ''_diff_fields'' = Some (Some ''x,y,z'') \<and>
      Conflict (stats m') = 1 \<and> ExactMatch (stats m') = 0"
    by blast
  from p1 d p2 show ?thesis by blast
qed

subsection \<open>Resolution toward B (C2)\<close>

text \<open>
  C2, amended. For a matched pair with a differing field whose two values are non-empty and
  unequal, when the decision is B (strategy UseB, or the interactive answer B), the output
  record takes B's value on the contested fields, keeps the value already resolved on the
  auto-filled fields (B's) and keeps A's value on every other field; its source is MERGE_B,
  its conflict flag is 1, its differing fields are all differing fields joined by commas,
  and the counter of conflicts resolved toward B grows by one. Here the contested fields are
  the differing fields that no automatic rule resolves: those with two non-empty unequal
  values and those with NULL on one side and the empty text on the other. The output schema
  is as the store guarantees it.
\<close>

theorem resolved_toward_B:
  assumes "schemaOK m"
    and "f0 \<in> set (findDiffFields m rowA rowB)"
    and "\<not> isNullOrEmpty (getVal rowA f0)" and "\<not> isNullOrEmpty (getVal rowB f0)"
    and "Strategy (config m) = UseB \<or>
         (Strategy (config m) = AskUser \<and> (\<forall>i<n. \<not> decisive (stdinReader m !! i)) \<and>
          stdinReader m !! n = Inr line \<and> normalizeInput line = ''B'')"
  shows "\<exists>m' out. compareAndMerge m rowA rowB key = Some (m', out) \<and>
     (\<forall>f \<in> set (fieldNamesC m).
        Values out f =
          Some (if f \<in> set (findDiffFields m rowA rowB) \<and>
                   (contested rowA rowB f \<or> autoFillFromB rowA rowB f)
                then getVal rowB f else getVal rowA f)) \<and>
     Values out ''_source'' = Some (Some ''MERGE_B'') \<and>
     Values out ''_conflict'' = Some (Some ''1'') \<and>
     Values out ''_diff_fields'' = Some (Some (Join (findDiffFields m rowA rowB) '','')) \<and>
     ConflictUseB (stats m') = ConflictUseB (stats m) + 1 \<and>
     ConflictUseA (stats m') = ConflictUseA (stats m)"
proof -
  let ?D = "findDiffFields m rowA rowB"
  let ?M = "contestedFields m rowA rowB"
  let ?m2 = "afterClassify m rowA rowB"
  from assms(2-4) have "f0 \<in> set ?M" by (simp add: contestedFields_iff)
  then have ne: "?M \<noteq> []" by auto
  from assms(2) have dne: "?D \<noteq> []" by auto
  obtain m3 where ch: "chooseByStrategy ?m2 ?M rowA rowB = Some (UseB, m3)"
  proof (cases "Strategy (config m) = UseB")
    case True
    then have "chooseByStrategy ?m2 ?M rowA rowB = Some (UseB, ?m2)"
      by (simp add: chooseByStrategy_def)
    then show ?thesis using that by blast
  next
    case False
    with assms(5) have ask: "Strategy (config m) = AskUser"
      and nd: "\<forall>i<n. \<not> decisive (stdinReader ?m2 !! i)"
      and ln: "stdinReader ?m2 !! n = Inr line" and nb: "normalizeInput line = ''B''"
      by simp_all
    from ln nb have dec: "decisive (stdinReader ?m2 !! n)" by (simp add: decisive_def)
    from ln nb have v: "verdict (stdinReader ?m2 !! n) = UseB" by (simp add: verdict_def)
    from askUserChoice_decides[OF nd dec, of ?M rowA rowB] v ask
    have "chooseByStrategy ?m2 ?M rowA rowB =
            Some (UseB, ?m2\<lparr>stdinReader := sdrop (Suc n) (stdinReader ?m2)\<rparr>)"
      by (simp add: chooseByStrategy_def)
    then show ?thesis using that by blast
  qed
  let ?m' = "m3\<lparr>stats := (stats m3)\<lparr>ConflictUseB := ConflictUseB (stats m3) + 1\<rparr>\<rparr>"
  let ?out = "buildCRowMerged m (fold (overwriteStep rowB) ?M (mergedAuto m rowA rowB))
                ''MERGE_B'' True (Join ?D '','')"
  have res: "compareAndMerge m rowA rowB key = Some (?m', ?out)"
    using compareAndMerge_chosen[OF ne ch] by simp
  have st: "stats m3 = stats ?m2" using ch by (rule chosen_stats)
  have vals: "Values ?out f =
          Some (if f \<in> set ?D \<and> (contested rowA rowB f \<or> autoFillFromB rowA rowB f)
                then getVal rowB f else getVal rowA f)" if f: "f \<in> set (fieldNamesC m)" for f
  proof -
    from schema_not_meta[OF assms(1) f]
    have "Values ?out f = Some (getVal (fold (overwriteStep rowB) ?M (mergedAuto m rowA rowB)) f)"
      using f by (simp add: buildCRowMerged_field)
    also have "getVal (fold (overwriteStep rowB) ?M (mergedAuto m rowA rowB)) f =
        (if f \<in> set ?D \<and> (contested rowA rowB f \<or> autoFillFromB rowA rowB f)
         then getVal rowB f else getVal rowA f)"
      using f differs_present[of f m rowA rowB]
      by (auto simp: getVal_overwritten getVal_mergedAuto contestedFields_def contested_def)
    finally show ?thesis .
  qed
  have "Values ?out ''_diff_fields'' = Some (Some (Join ?D '',''))"
    using diffStr_nonempty[OF assms(1) dne] by (simp add: buildCRowMerged_meta)
  with res vals st show ?thesis
    by (simp add: buildCRowMerged_meta)
qed


lemma example_inputs:
  "normalizeInput ''maybe\<newline>'' = ''MAYBE''"
  "normalizeInput '' b\<newline>'' = ''B''"
  "normalizeInput [CHR ''A'', CHR 0x0D, CHR 0x0A] = ''A''"
  by code_simp+

theorem resolved_toward_B_witness:
  "(\<exists>m' out. compareAndMerge (exampleMerger UseB exampleStdin) rowA1 rowB1 ''1'' = Some (m', out) \<and>
      Values out ''k'' = Some (Some ''1'') \<and> Values out ''x'' = Some (Some ''q'') \<and>
      Values out ''y'' = Some (Some ''v'') \<and> Values out ''z'' = Some None \<and>
      Values out ''_source'' = Some (Some ''MERGE_B'') \<and>
      Values out ''_conflict'' = Some (Some ''1'') \<and>
      Values out ''_diff_fields'' = Some (Some ''x,y,z'') \<and>
      ConflictUseB (stats m') = 1 \<and> ConflictUseA (stats m') = 0) \<and>
   (\<exists>m' out. compareAndMerge
        (exampleMerger AskUser (Inr ''maybe\<newline>'' ## Inr '' b\<newline>'' ## exampleStdin)) rowA1 rowB1 ''1'' =
          Some (m', out) \<and>
      Values out ''k'' = Some (Some ''1'') \<and> Values out ''x'' = Some (Some ''q'') \<and>
      Values out ''y'' = Some (Some ''v'') \<and> Values out ''z'' = Some None \<and>
      Values out ''_source'' = Some (Some ''MERGE_B'') \<and>
      Values out ''_conflict'' = Some (Some ''1'') \<and>
      Values out ''_diff_fields'' = Some (Some ''x,y,z'') \<and>
      ConflictUseB (stats m') = 1 \<and> ConflictUseA (stats m') = 0)"
proof -
  let ?r = "Inr ''maybe\<newline>'' ## Inr '' b\<newline>'' ## exampleStdin"
  have ok: "schemaOK (exampleMerger s r)" for s r by (rule example_schemaOK)
  have d: "''x'' \<in> set (findDiffFields (exampleMerger s r) rowA1 rowB1)" for s r
    by (simp add: example_diffs)
  have a: "\<not> isNullOrEmpty (getVal rowA1 ''x'')" and b: "\<not> isNullOrEmpty (getVal rowB1 ''x'')"
    by (simp_all add: example_rows)
  have s1: "Strategy (config (exampleMerger UseB exampleStdin)) = UseB \<or>
         (Strategy (config (exampleMerger UseB exampleStdin)) = AskUser \<and>
          (\<forall>i<0. \<not> decisive (stdinReader (exampleMerger UseB exampleStdin) !! i)) \<and>
          stdinReader (exampleMerger UseB exampleStdin) !! 0 = Inr [] \<and> normalizeInput [] = ''B'')"
    by (simp add: exampleMerger_simps)
  have s2: "Strategy (config (exampleMerger AskUser ?r)) = UseB \<or>
         (Strategy (config (exampleMerger AskUser ?r)) = AskUser \<and>
          (\<forall>i<1. \<not> decisive (stdinReader (exampleMerger AskUser ?r) !! i)) \<and>
          stdinReader (exampleMerger AskUser ?r) !! 1 = Inr '' b\<newline>'' \<and>
          normalizeInput '' b\<newline>'' = ''B'')"
    by (simp add: exampleMerger_simps decisive_def example_inputs)
  have e: "ConflictUseB emptyStats = 0" "ConflictUseA emptyStats = 0" by (simp_all add: emptyStats_def)
  have c: "contested rowA1 rowB1 ''x''" "contested rowA1 rowB1 ''z''" "\<not> contested rowA1 rowB1 ''y''"
    "autoFillFromB rowA1 rowB1 ''y''"
    by (simp_all add: contested_def autoFillFromB_def example_rows)
  from resolved_toward_B[OF ok d a b s1, of "''1''"] resolved_toward_B[OF ok d a b s2, of "''1''"]
  show ?thesis
    by (simp add: exampleMerger_simps example_diffs example_rows e c)
qed

text \<open>
  With the contested fields taken to be only the fields with two non-empty unequal values,
  the statement fails. In the pair below field \<open>x\<close> has two non-empty unequal values and
  the strategy is UseB; field \<open>z\<close> holds the empty text in A and NULL in B, so it is not
  such a field and is not auto-filled, yet the output record holds B's NULL there and not
  A's empty text.
\<close>

theorem resolved_toward_B_counterexample:
  "''x'' \<in> set (findDiffFields (exampleMerger UseB exampleStdin) rowA1 rowB1) \<and>
   \<not> isNullOrEmpty (getVal rowA1 ''x'') \<and> \<not> isNullOrEmpty (getVal rowB1 ''x'') \<and>
   getVal rowA1 ''x'' \<noteq> getVal rowB1 ''x'' \<and>
   Strategy (config (exampleMerger UseB exampleStdin)) = UseB \<and>
   ''z'' \<in> set (fieldNamesC (exampleMerger UseB exampleStdin)) \<and>
   \<not> (\<not> isNullOrEmpty (getVal rowA1 ''z'') \<and> \<not> isNullOrEmpty (getVal rowB1 ''z'')) \<and>
   \<not> (isNullOrEmpty (getVal rowA1 ''z'') \<and> \<not> isNullOrEmpty (getVal rowB1 ''z'')) \<and>
   compareAndMerge (exampleMerger UseB exampleStdin) rowA1 rowB1 ''1'' \<noteq> None \<and>
   Values (snd (the (compareAndMerge (exampleMerger UseB exampleStdin) rowA1 rowB1 ''1''))) ''z'' =
     Some (getVal rowB1 ''z'') \<and>
   getVal rowB1 ''z'' = None \<and> getVal rowA1 ''z'' = Some [] \<and>
   Values (snd (the (compareAndMerge (exampleMerger UseB exampleStdin) rowA1 rowB1 ''1''))) ''z'' \<noteq>
     Some (getVal rowA1 ''z'')"
proof -
  let ?m = "exampleMerger UseB exampleStdin"
  have M: "contestedFields ?m rowA1 rowB1 = [''x'', ''z'']"
    by (simp add: contestedFields_def example_diffs contested_def example_rows)
  then have ne: "contestedFields ?m rowA1 rowB1 \<noteq> []" by simp
  have ch: "chooseByStrategy (afterClassify ?m rowA1 rowB1) (contestedFields ?m rowA1 rowB1) rowA1 rowB1 =
      Some (UseB, afterClassify ?m rowA1 rowB1)"
    by (simp add: chooseByStrategy_def exampleMerger_simps)
  note r = compareAndMerge_chosen[OF ne ch, of "''1''"]
  have ov: "getVal (fold (overwriteStep rowB1) (contestedFields ?m rowA1 rowB1)
              (mergedAuto ?m rowA1 rowB1)) ''z'' = getVal rowB1 ''z''"
    unfolding getVal_overwritten by (simp add: M example_rows)
  have z: "Values (snd (the (compareAndMerge ?m rowA1 rowB1 ''1''))) ''z'' = Some (getVal rowB1 ''z'')"
    unfolding r
    by (simp add: buildCRowMerged_field exampleMerger_simps ov)
  from r have nn: "compareAndMerge ?m rowA1 rowB1 ''1'' \<noteq> None" by simp
  from z nn show ?thesis
    by (simp add: example_diffs example_rows exampleMerger_simps)
qed

subsection \<open>Differences resolved automatically (C3)\<close>

text \<open>
  C3. For a matched pair that has differing fields of which none is contested (each has
  exactly one side NULL or empty), the output record has source MERGE_A, conflict flag 1 and
  the comma-joined list of all differing fields. No decision is made: nothing is read from
  the input and neither the resolved-toward-A nor the resolved-toward-B counter moves,
  whatever the strategy. Column names are non-empty, as the store guarantees.
\<close>

theorem auto_resolved_only:
  assumes "[] \<notin> set (compareFields m)"
    and "findDiffFields m rowA rowB \<noteq> []"
    and "\<forall>f \<in> set (findDiffFields m rowA rowB).
           isNullOrEmpty (getVal rowA f) \<noteq> isNullOrEmpty (getVal rowB f)"
  shows "\<exists>m' out. compareAndMerge m rowA rowB key = Some (m', out) \<and>
     Values out ''_source'' = Some (Some ''MERGE_A'') \<and>
     Values out ''_conflict'' = Some (Some ''1'') \<and>
     Values out ''_diff_fields'' = Some (Some (Join (findDiffFields m rowA rowB) '','')) \<and>
     ConflictUseA (stats m') = ConflictUseA (stats m) \<and>
     ConflictUseB (stats m') = ConflictUseB (stats m) \<and>
     Conflict (stats m') = Conflict (stats m) + 1 \<and>
     stdinReader m' = stdinReader m"
proof -
  from assms(3) have "contestedFields m rowA rowB = []"
    by (auto simp: contestedFields_def contested_def filter_empty_conv)
  from compareAndMerge_auto[OF assms(2) this, of key]
    diffStr_nonempty_compare[OF assms(1,2), of "'',''"]
  show ?thesis by (simp add: buildCRowMerged_meta)
qed

theorem auto_resolved_only_witness:
  "\<exists>m' out. compareAndMerge (exampleMerger AskUser exampleStdin) rowA2 rowB2 ''2'' = Some (m', out) \<and>
     Values out ''_source'' = Some (Some ''MERGE_A'') \<and>
     Values out ''_conflict'' = Some (Some ''1'') \<and>
     Values out ''_diff_fields'' = Some (Some ''y,z'') \<and>
     ConflictUseA (stats m') = 0 \<and> ConflictUseB (stats m') = 0 \<and>
     Conflict (stats m') = 1 \<and> stdinReader m' = exampleStdin"
proof -
  have ok: "[] \<notin> set (compareFields (exampleMerger AskUser exampleStdin))"
    by (simp add: exampleMerger_simps)
  have d: "findDiffFields (exampleMerger AskUser exampleStdin) rowA2 rowB2 \<noteq> []"
    by (simp add: example_diffs)
  have a: "\<forall>f \<in> set (findDiffFields (exampleMerger AskUser exampleStdin) rowA2 rowB2).
           isNullOrEmpty (getVal rowA2 f) \<noteq> isNullOrEmpty (getVal rowB2 f)"
    by (simp add: example_diffs example_rows)
  have e: "ConflictUseB emptyStats = 0" "ConflictUseA emptyStats = 0" "Conflict emptyStats = 0"
    by (simp_all add: emptyStats_def)
  from auto_resolved_only[OF ok d a, of "''2''"]
  show ?thesis by (simp add: exampleMerger_simps example_diffs e)
qed

subsection \<open>Automatic fill and automatic keep (C4)\<close>

text \<open>
  C4. For every differing field where A's value is NULL or empty and B's is neither, the
  output record holds B's value, whatever the strategy and whatever is decided for the
  contested fields, and the auto-fill counter grows by one for each such field. Where B's
  value is NULL or empty and A's is neither, A's value is kept. The record is produced
  whenever the prompt, if the strategy is interactive, gets an answer.
\<close>

theorem auto_fill_from_B:
  assumes "schemaOK m" and "answers m"
  shows "\<exists>m' out. compareAndMerge m rowA rowB key = Some (m', out) \<and>
     (\<forall>f \<in> set (findDiffFields m rowA rowB).
        isNullOrEmpty (getVal rowA f) \<and> \<not> isNullOrEmpty (getVal rowB f) \<longrightarrow>
        Values out f = Some (getVal rowB f)) \<and>
     (\<forall>f \<in> set (findDiffFields m rowA rowB).
        \<not> isNullOrEmpty (getVal rowA f) \<and> isNullOrEmpty (getVal rowB f) \<longrightarrow>
        Values out f = Some (getVal rowA f)) \<and>
     NullAutoFilled (stats m') =
       NullAutoFilled (stats m) +
       length (filter (\<lambda>f. isNullOrEmpty (getVal rowA f) \<and> \<not> isNullOrEmpty (getVal rowB f))
                 (findDiffFields m rowA rowB))"
proof -
  let ?D = "findDiffFields m rowA rowB"
  let ?M = "contestedFields m rowA rowB"
  let ?m2 = "afterClassify m rowA rowB"
  let ?fill = "\<lambda>f. isNullOrEmpty (getVal rowA f) \<and> \<not> isNullOrEmpty (getVal rowB f)"
  have cnt: "filter (autoFillFromB rowA rowB) ?D = filter ?fill ?D"
    by (rule filter_cong) (auto simp: autoFillFromB_def differs_present)
  have field: "Values (buildCRowMerged m mg src c d) f = Some (getVal mg f)"
    if "f \<in> set ?D" for f mg src c d
    using schema_not_meta[OF assms(1) diff_in_schema[OF assms(1) that]] diff_in_schema[OF assms(1) that]
    by (simp add: buildCRowMerged_field)
  have auto1: "getVal (mergedAuto m rowA rowB) f = getVal rowB f" if "f \<in> set ?D" "?fill f" for f
    using that differs_present[OF that(1)] diff_in_schema[OF assms(1) that(1)]
    by (simp add: getVal_mergedAuto autoFillFromB_def)
  have auto2: "getVal (mergedAuto m rowA rowB) f = getVal rowA f"
    if "f \<in> set ?D" "\<not> isNullOrEmpty (getVal rowA f) \<and> isNullOrEmpty (getVal rowB f)" for f
    using that diff_in_schema[OF assms(1) that(1)]
    by (simp add: getVal_mergedAuto autoFillFromB_def)
  have notM: "f \<notin> set ?M" if "isNullOrEmpty (getVal rowA f) \<noteq> isNullOrEmpty (getVal rowB f)" for f
    using that by (simp add: contestedFields_iff)
  show ?thesis
  proof (cases "?D = []")
    case True
    then show ?thesis by (simp add: compareAndMerge_exact)
  next
    case dne: False
    show ?thesis
    proof (cases "?M = []")
      case True
      from compareAndMerge_auto[OF dne True, of key] show ?thesis
        by (auto simp: field auto1 auto2 cnt)
    next
      case False
      from assms(2) have "answers ?m2" by simp
      from chooseByStrategy_returns[OF this, of ?M rowA rowB]
      obtain c m3 where ch: "chooseByStrategy ?m2 ?M rowA rowB = Some (c, m3)" by blast
      have st: "stats m3 = stats ?m2" using ch by (rule chosen_stats)
      from compareAndMerge_chosen[OF False ch, of key] show ?thesis
        by (cases "c = UseA") (auto simp: field auto1 auto2 cnt st getVal_overwritten notM)
    qed
  qed
qed


theorem auto_fill_from_B_witness:
  "(\<exists>m' out. compareAndMerge (exampleMerger UseA exampleStdin) rowA1 rowB1 ''1'' = Some (m', out) \<and>
      Values out ''y'' = Some (Some ''v'') \<and> NullAutoFilled (stats m') = 1) \<and>
   (\<exists>m' out. compareAndMerge (exampleMerger UseB exampleStdin) rowA2 rowB2 ''2'' = Some (m', out) \<and>
      Values out ''y'' = Some (Some ''v'') \<and> Values out ''z'' = Some (Some ''s'') \<and>
      NullAutoFilled (stats m') = 1)"
proof -
  have ok: "schemaOK (exampleMerger s exampleStdin)" for s by (rule example_schemaOK)
  have an: "answers (exampleMerger UseA exampleStdin)" "answers (exampleMerger UseB exampleStdin)"
    by (simp_all add: answers_def exampleMerger_simps)
  have e: "NullAutoFilled emptyStats = 0" by (simp add: emptyStats_def)
  from auto_fill_from_B[OF ok an(1), of rowA1 rowB1 "''1''"]
       auto_fill_from_B[OF ok an(2), of rowA2 rowB2 "''2''"]
  show ?thesis by (simp add: exampleMerger_simps example_diffs example_rows e)
qed

subsection \<open>NULL against the empty text (C5)\<close>



subsection \<open>The interactive choice (C8)\<close>

lemma sconst_never_decisive: "\<not> decisive x \<Longrightarrow> \<forall>i. \<not> decisive (sconst x !! i)"
  by simp

text \<open>
  C8. Under the interactive strategy the choice is A for an input line that normalizes
  (white space trimmed, upper case) to A and B for one that normalizes to B. Any other line
  prompts again and changes nothing but the position in the input, so the result is that of
  the first line normalizing to A or B; a failed read gives A and the run goes on. Input
  that never decides keeps the prompt running for ever.
\<close>

theorem interactive_choice:
  "(stdinReader m !! 0 = Inr line \<and> normalizeInput line = ''A'' \<longrightarrow>
      askUserChoice m fs rowA rowB = Some (UseA, m\<lparr>stdinReader := stl (stdinReader m)\<rparr>)) \<and>
   (stdinReader m !! 0 = Inr line \<and> normalizeInput line = ''B'' \<longrightarrow>
      askUserChoice m fs rowA rowB = Some (UseB, m\<lparr>stdinReader := stl (stdinReader m)\<rparr>)) \<and>
   (stdinReader m !! 0 = Inl err \<longrightarrow>
      askUserChoice m fs rowA rowB = Some (UseA, m\<lparr>stdinReader := stl (stdinReader m)\<rparr>)) \<and>
   (stdinReader m !! 0 = Inr line \<and> normalizeInput line \<noteq> ''A'' \<and> normalizeInput line \<noteq> ''B'' \<longrightarrow>
      askUserChoice m fs rowA rowB =
        askUserChoice (m\<lparr>stdinReader := stl (stdinReader m)\<rparr>) fs rowA rowB) \<and>
   ((\<forall>i<n. \<not> decisive (stdinReader m !! i)) \<and> decisive (stdinReader m !! n) \<longrightarrow>
      askUserChoice m fs rowA rowB =
        Some (verdict (stdinReader m !! n), m\<lparr>stdinReader := sdrop (Suc n) (stdinReader m)\<rparr>)) \<and>
   ((\<forall>i. \<not> decisive (stdinReader m !! i)) \<longrightarrow> askUserChoice m fs rowA rowB = None) \<and>
   (\<forall>c m'. askUserChoice m fs rowA rowB = Some (c, m') \<longrightarrow>
      (c = UseA \<or> c = UseB) \<and> m' = m\<lparr>stdinReader := stdinReader m'\<rparr>)"
proof -
  have a: "stdinReader m !! 0 = Inr line \<and> normalizeInput line = ''A'' \<longrightarrow>
      askUserChoice m fs rowA rowB = Some (UseA, m\<lparr>stdinReader := stl (stdinReader m)\<rparr>)"
    using askUserChoice_decisive_head[of m fs rowA rowB]
    by (auto simp: decisive_def verdict_def)
  have b: "stdinReader m !! 0 = Inr line \<and> normalizeInput line = ''B'' \<longrightarrow>
      askUserChoice m fs rowA rowB = Some (UseB, m\<lparr>stdinReader := stl (stdinReader m)\<rparr>)"
    using askUserChoice_decisive_head[of m fs rowA rowB]
    by (auto simp: decisive_def verdict_def)
  have e: "stdinReader m !! 0 = Inl err \<longrightarrow>
      askUserChoice m fs rowA rowB = Some (UseA, m\<lparr>stdinReader := stl (stdinReader m)\<rparr>)"
    using askUserChoice_decisive_head[of m fs rowA rowB]
    by (auto simp: decisive_def verdict_def)
  have s: "stdinReader m !! 0 = Inr line \<and> normalizeInput line \<noteq> ''A'' \<and> normalizeInput line \<noteq> ''B'' \<longrightarrow>
      askUserChoice m fs rowA rowB =
        askUserChoice (m\<lparr>stdinReader := stl (stdinReader m)\<rparr>) fs rowA rowB"
    using askUserChoice_skip[of m fs rowA rowB]
    by (auto simp: decisive_def)
  have d: "(\<forall>i<n. \<not> decisive (stdinReader m !! i)) \<and> decisive (stdinReader m !! n) \<longrightarrow>
      askUserChoice m fs rowA rowB =
        Some (verdict (stdinReader m !! n), m\<lparr>stdinReader := sdrop (Suc n) (stdinReader m)\<rparr>)"
    using askUserChoice_decides[of n m fs rowA rowB] by blast
  have n: "(\<forall>i. \<not> decisive (stdinReader m !! i)) \<longrightarrow> askUserChoice m fs rowA rowB = None"
    using askUserChoice_diverges[of m fs rowA rowB] by blast
  have r: "\<forall>c m'. askUserChoice m fs rowA rowB = Some (c, m') \<longrightarrow>
      (c = UseA \<or> c = UseB) \<and> m' = m\<lparr>stdinReader := stdinReader m'\<rparr>"
  proof (intro allI impI)
    fix c m' assume "askUserChoice m fs rowA rowB = Some (c, m')"
    then obtain k where "c = verdict (stdinReader m !! k)"
      and "m' = m\<lparr>stdinReader := sdrop (Suc k) (stdinReader m)\<rparr>"
      by (rule askUserChoice_Some)
    then show "(c = UseA \<or> c = UseB) \<and> m' = m\<lparr>stdinReader := stdinReader m'\<rparr>"
      using verdict_cases by auto
  qed
  from a b e s d n r show ?thesis by blast
qed

theorem interactive_choice_witness:
  "askUserChoice (exampleMerger AskUser (Inr ''maybe\<newline>'' ## Inr '' b\<newline>'' ## exampleStdin)) [''x''] rowA1 rowB1 =
     Some (UseB, exampleMerger AskUser exampleStdin) \<and>
   askUserChoice (exampleMerger AskUser (Inr [CHR ''A'', CHR 0x0D, CHR 0x0A] ## exampleStdin)) [''x''] rowA1 rowB1 =
     Some (UseA, exampleMerger AskUser exampleStdin) \<and>
   askUserChoice (exampleMerger AskUser (Inl ''EOF'' ## exampleStdin)) [''x''] rowA1 rowB1 =
     Some (UseA, exampleMerger AskUser exampleStdin) \<and>
   askUserChoice (exampleMerger AskUser (sconst (Inr ''maybe\<newline>''))) [''x''] rowA1 rowB1 = None"
proof -
  let ?r = "Inr ''maybe\<newline>'' ## Inr '' b\<newline>'' ## exampleStdin"
  have upd: "(exampleMerger AskUser r)\<lparr>stdinReader := r'\<rparr> = exampleMerger AskUser r'" for r r'
    by (simp add: exampleMerger_def prepareFields_def NewMerger_def Let_def)
  have nd: "\<not> decisive (Inr ''maybe\<newline>'')" by (simp add: decisive_def example_inputs)
  have h1: "(\<forall>i<1. \<not> decisive (stdinReader (exampleMerger AskUser ?r) !! i)) \<and>
            decisive (stdinReader (exampleMerger AskUser ?r) !! 1)"
    by (simp add: exampleMerger_simps decisive_def example_inputs)
  have h2: "stdinReader (exampleMerger AskUser (Inr [CHR ''A'', CHR 0x0D, CHR 0x0A] ## exampleStdin)) !! 0 =
              Inr [CHR ''A'', CHR 0x0D, CHR 0x0A] \<and>
            normalizeInput [CHR ''A'', CHR 0x0D, CHR 0x0A] = ''A''"
    by (simp add: exampleMerger_simps example_inputs)
  have h3: "stdinReader (exampleMerger AskUser (Inl ''EOF'' ## exampleStdin)) !! 0 = Inl ''EOF''"
    by (simp add: exampleMerger_simps)
  have h4: "\<forall>i. \<not> decisive (stdinReader (exampleMerger AskUser (sconst (Inr ''maybe\<newline>''))) !! i)"
    using sconst_never_decisive[OF nd] by (simp add: exampleMerger_simps)
  have p1: "askUserChoice (exampleMerger AskUser ?r) [''x''] rowA1 rowB1 = Some (UseB, exampleMerger AskUser exampleStdin)"
    using interactive_choice[of "exampleMerger AskUser ?r" "[]" "[''x'']" rowA1 rowB1 "[]" 1] h1
    by (simp add: exampleMerger_simps upd verdict_def example_inputs)
  have p2: "askUserChoice (exampleMerger AskUser (Inr [CHR ''A'', CHR 0x0D, CHR 0x0A] ## exampleStdin)) [''x''] rowA1 rowB1 =
     Some (UseA, exampleMerger AskUser exampleStdin)"
    using interactive_choice[of "exampleMerger AskUser (Inr [CHR ''A'', CHR 0x0D, CHR 0x0A] ## exampleStdin)"
        "[CHR ''A'', CHR 0x0D, CHR 0x0A]" "[''x'']" rowA1 rowB1 "[]" 0] h2
    by (simp add: exampleMerger_simps upd)
  have p3: "askUserChoice (exampleMerger AskUser (Inl ''EOF'' ## exampleStdin)) [''x''] rowA1 rowB1 =
     Some (UseA, exampleMerger AskUser exampleStdin)"
    using interactive_choice[of "exampleMerger AskUser (Inl ''EOF'' ## exampleStdin)" "[]" "[''x'']" rowA1 rowB1 "''EOF''" 0] h3
    by (simp add: exampleMerger_simps upd)
  have p4: "askUserChoice (exampleMerger AskUser (sconst (Inr ''maybe\<newline>''))) [''x''] rowA1 rowB1 = None"
    using interactive_choice[of "exampleMerger AskUser (sconst (Inr ''maybe\<newline>''))" "[]" "[''x'']" rowA1 rowB1 "[]" 0] h4
    by blast
  from p1 p2 p3 p4 show ?thesis by simp
qed

subsection \<open>The index of B (C6)\<close>

lemma fold_index:
  "fold (\<lambda>i idx. idx(key i \<mapsto> i)) js idx0 k =
     (if filter (\<lambda>i. key i = k) js = [] then idx0 k
      else Some (last (filter (\<lambda>i. key i = k) js)))"
  by (induction js rule: rev_induct) simp_all

lemma buildBIndex_last:
  "buildBIndex m dataB k =
     (if filter (\<lambda>i. buildKey m (dataB ! i) = k) [0..<length dataB] = [] then None
      else Some (last (filter (\<lambda>i. buildKey m (dataB ! i) = k) [0..<length dataB])))"
  by (simp add: buildBIndex_def fold_index[where key="\<lambda>i. buildKey m (dataB ! i)"])

lemma last_filter_upt:
  "filter P [0..<n] \<noteq> [] \<Longrightarrow>
   last (filter P [0..<n]) < n \<and> P (last (filter P [0..<n])) \<and>
   (\<forall>j. last (filter P [0..<n]) < j \<and> j < n \<longrightarrow> \<not> P j)"
proof (induction n)
  case 0
  then show ?case by simp
next
  case (Suc n)
  show ?case
  proof (cases "P n")
    case True
    then have l: "last (filter P [0..<Suc n]) = n" by simp
    have nj: "\<not> P j" if "n < j" "j < Suc n" for j
      using that by arith
    have "n < Suc n" by simp
    with True nj show ?thesis unfolding l by blast
  next
    case False
    then have eq: "filter P [0..<Suc n] = filter P [0..<n]" by simp
    with Suc.prems have ne: "filter P [0..<n] \<noteq> []" by simp
    note ih = Suc.IH[OF ne]
    have "\<not> P j" if "last (filter P [0..<n]) < j" "j < Suc n" for j
    proof (cases "j = n")
      case True
      with False show ?thesis by simp
    next
      case False
      with that have "j < n" by arith
      with ih that(1) show ?thesis by blast
    qed
    moreover from ih have "last (filter P [0..<n]) < Suc n" by arith
    moreover from ih have "P (last (filter P [0..<n]))" by blast
    ultimately show ?thesis unfolding eq by blast
  qed
qed

lemma last_filter_unique:
  assumes "i < n" and "P i" and "\<forall>j. i < j \<and> j < n \<longrightarrow> \<not> P j"
  shows "filter P [0..<n] \<noteq> []" and "last (filter P [0..<n]) = i"
proof -
  from assms(1,2) have "i \<in> set (filter P [0..<n])" by simp
  then show ne: "filter P [0..<n] \<noteq> []" by (metis empty_iff list.set(1))
  define l where "l = last (filter P [0..<n])"
  from last_filter_upt[OF ne]
  have l: "l < n" "P l" "\<forall>j. l < j \<and> j < n \<longrightarrow> \<not> P j" unfolding l_def by blast+
  have "\<not> l < i" using l(3) assms(1,2) by blast
  moreover have "\<not> i < l" using assms(3) l(1,2) by blast
  ultimately show "last (filter P [0..<n]) = i" unfolding l_def by arith
qed

lemma buildBIndex_Some:
  "buildBIndex m dataB k = Some i \<longleftrightarrow>
     i < length dataB \<and> buildKey m (dataB ! i) = k \<and>
     (\<forall>j. i < j \<and> j < length dataB \<longrightarrow> buildKey m (dataB ! j) \<noteq> k)"
proof -
  define P where "P = (\<lambda>i. buildKey m (dataB ! i) = k)"
  define n where "n = length dataB"
  have idx: "buildBIndex m dataB k = (if filter P [0..<n] = [] then None else Some (last (filter P [0..<n])))"
    unfolding P_def n_def by (rule buildBIndex_last)
  have "buildBIndex m dataB k = Some i \<longleftrightarrow> i < n \<and> P i \<and> (\<forall>j. i < j \<and> j < n \<longrightarrow> \<not> P j)"
  proof
    assume s: "buildBIndex m dataB k = Some i"
    then have ne: "filter P [0..<n] \<noteq> []" unfolding idx by (metis option.distinct(1))
    with s have "last (filter P [0..<n]) = i" unfolding idx by simp
    with last_filter_upt[OF ne] show "i < n \<and> P i \<and> (\<forall>j. i < j \<and> j < n \<longrightarrow> \<not> P j)" by blast
  next
    assume "i < n \<and> P i \<and> (\<forall>j. i < j \<and> j < n \<longrightarrow> \<not> P j)"
    then have "filter P [0..<n] \<noteq> []" "last (filter P [0..<n]) = i"
      using last_filter_unique[of i n P] by blast+
    then show "buildBIndex m dataB k = Some i" unfolding idx by simp
  qed
  then show ?thesis unfolding P_def n_def by simp
qed

lemma buildBIndex_None:
  "buildBIndex m dataB k = None \<longleftrightarrow> k \<notin> buildKey m ` set dataB"
proof -
  have "filter (\<lambda>i. buildKey m (dataB ! i) = k) [0..<length dataB] = [] \<longleftrightarrow>
        (\<forall>i<length dataB. buildKey m (dataB ! i) \<noteq> k)"
    by (auto simp: filter_empty_conv)
  also have "\<dots> \<longleftrightarrow> (\<forall>r\<in>set dataB. buildKey m r \<noteq> k)"
    by (metis in_set_conv_nth)
  also have "\<dots> \<longleftrightarrow> k \<notin> buildKey m ` set dataB"
    by blast
  finally show ?thesis by (simp add: buildBIndex_last)
qed

lemma matchRowA_same_last:
  assumes "length dataB' = length dataB"
    and "\<forall>i<length dataB. buildKey m (dataB' ! i) = buildKey m (dataB ! i)"
    and "\<forall>i<length dataB. (\<forall>j. i < j \<and> j < length dataB \<longrightarrow>
            buildKey m (dataB ! j) \<noteq> buildKey m (dataB ! i)) \<longrightarrow> dataB' ! i = dataB ! i"
  shows "buildBIndex m dataB' = buildBIndex m dataB"
    and "matchRowA (buildBIndex m dataB) dataB' rowA st = matchRowA (buildBIndex m dataB) dataB rowA st"
proof -
  have "filter (\<lambda>i. buildKey m (dataB' ! i) = k) [0..<length dataB] =
        filter (\<lambda>i. buildKey m (dataB ! i) = k) [0..<length dataB]" for k
    using assms(2) by (intro filter_cong) auto
  then show "buildBIndex m dataB' = buildBIndex m dataB"
    using assms(1) by (simp add: fun_eq_iff buildBIndex_last)
  have "dataB' ! i = dataB ! i" if "buildBIndex m dataB k = Some i" for k i
    using that assms(3) by (simp add: buildBIndex_Some)
  then show "matchRowA (buildBIndex m dataB) dataB' rowA st = matchRowA (buildBIndex m dataB) dataB rowA st"
    by (auto simp: matchRowA_def Let_def split: prod.splits option.splits)
qed

lemma passA_same_last:
  assumes "length dataB' = length dataB"
    and "\<forall>i<length dataB. buildKey m (dataB' ! i) = buildKey m (dataB ! i)"
    and "\<forall>i<length dataB. (\<forall>j. i < j \<and> j < length dataB \<longrightarrow>
            buildKey m (dataB ! j) \<noteq> buildKey m (dataB ! i)) \<longrightarrow> dataB' ! i = dataB ! i"
  shows "passA (buildBIndex m dataB') dataB' dataA st = passA (buildBIndex m dataB) dataB dataA st"
  unfolding matchRowA_same_last(1)[OF assms]
proof (induction dataA arbitrary: st)
  case Nil
  show ?case by simp
next
  case (Cons rowA rest)
  show ?case
    by (cases "matchRowA (buildBIndex m dataB) dataB rowA st")
       (simp_all add: matchRowA_same_last(2)[OF assms] Cons.IH)
qed

lemma example_keys:
  "buildKey (exampleMerger s r) rowA1 = ''1''" "buildKey (exampleMerger s r) rowB1 = ''1''"
  "buildKey (exampleMerger s r) rowB1old = ''1''"
  "buildKey (exampleMerger s r) rowA2 = ''2''" "buildKey (exampleMerger s r) rowB2 = ''2''"
  "buildKey (exampleMerger s r) rowB3 = ''3''"
  by (simp_all add: buildKey_def exampleMerger_simps rowA1_def rowB1_def rowB1old_def rowA2_def
        rowB2_def rowB3_def mkRow_def getVal_def)

text \<open>
  C6. The key index built over the rows of B maps each key to the last row, in load order,
  that has this key, and has one entry per distinct key. An earlier row with the same key is
  not in the index, and it is never used when the rows of A are matched: with other values
  in the earlier rows the matching pass gives the same result.
\<close>

theorem index_keeps_last_row:
  "buildBIndex m dataB k =
     (if filter (\<lambda>i. buildKey m (dataB ! i) = k) [0..<length dataB] = [] then None
      else Some (last (filter (\<lambda>i. buildKey m (dataB ! i) = k) [0..<length dataB]))) \<and>
   (buildBIndex m dataB k = Some i \<longleftrightarrow>
      i < length dataB \<and> buildKey m (dataB ! i) = k \<and>
      (\<forall>j<length dataB. i < j \<longrightarrow> buildKey m (dataB ! j) \<noteq> k)) \<and>
   dom (buildBIndex m dataB) = buildKey m ` set dataB \<and>
   (i < j \<and> j < length dataB \<and> buildKey m (dataB ! j) = buildKey m (dataB ! i) \<longrightarrow>
      i \<notin> ran (buildBIndex m dataB)) \<and>
   (length dataB' = length dataB \<and>
    (\<forall>i<length dataB. buildKey m (dataB' ! i) = buildKey m (dataB ! i)) \<and>
    (\<forall>i<length dataB. (\<forall>j<length dataB. i < j \<longrightarrow>
          buildKey m (dataB ! j) \<noteq> buildKey m (dataB ! i)) \<longrightarrow> dataB' ! i = dataB ! i) \<longrightarrow>
    passA (buildBIndex m dataB') dataB' dataA st = passA (buildBIndex m dataB) dataB dataA st)"
proof -
  have d: "dom (buildBIndex m dataB) = buildKey m ` set dataB"
    using buildBIndex_None[of m dataB] by (auto simp: dom_def)
  have r: "i \<notin> ran (buildBIndex m dataB)"
    if "i < j" "j < length dataB" "buildKey m (dataB ! j) = buildKey m (dataB ! i)"
  proof
    assume "i \<in> ran (buildBIndex m dataB)"
    then obtain k' where "buildBIndex m dataB k' = Some i" by (auto simp: ran_def)
    then have "buildKey m (dataB ! i) = k'"
      and "\<forall>j. i < j \<and> j < length dataB \<longrightarrow> buildKey m (dataB ! j) \<noteq> k'"
      by (simp_all add: buildBIndex_Some)
    with that show False by blast
  qed
  have s: "buildBIndex m dataB k = Some i \<longleftrightarrow>
      i < length dataB \<and> buildKey m (dataB ! i) = k \<and>
      (\<forall>j<length dataB. i < j \<longrightarrow> buildKey m (dataB ! j) \<noteq> k)"
    unfolding buildBIndex_Some by blast
  have p: "passA (buildBIndex m dataB') dataB' dataA st = passA (buildBIndex m dataB) dataB dataA st"
    if "length dataB' = length dataB"
      and "\<forall>i<length dataB. buildKey m (dataB' ! i) = buildKey m (dataB ! i)"
      and "\<forall>i<length dataB. (\<forall>j<length dataB. i < j \<longrightarrow>
          buildKey m (dataB ! j) \<noteq> buildKey m (dataB ! i)) \<longrightarrow> dataB' ! i = dataB ! i"
  proof (rule passA_same_last[OF that(1,2)])
    show "\<forall>i<length dataB. (\<forall>j. i < j \<and> j < length dataB \<longrightarrow>
            buildKey m (dataB ! j) \<noteq> buildKey m (dataB ! i)) \<longrightarrow> dataB' ! i = dataB ! i"
      using that(3) by blast
  qed
  from buildBIndex_last[of m dataB k] s d r p show ?thesis by blast
qed

theorem index_keeps_last_row_witness:
  "buildBIndex (exampleMerger UseA exampleStdin) [rowB1old, rowB1, rowB2] ''1'' = Some 1 \<and>
   buildBIndex (exampleMerger UseA exampleStdin) [rowB1old, rowB1, rowB2] ''2'' = Some 2 \<and>
   buildBIndex (exampleMerger UseA exampleStdin) [rowB1old, rowB1, rowB2] ''3'' = None \<and>
   0 \<notin> ran (buildBIndex (exampleMerger UseA exampleStdin) [rowB1old, rowB1, rowB2]) \<and>
   passA (buildBIndex (exampleMerger UseA exampleStdin) [rowA1, rowB1, rowB2]) [rowA1, rowB1, rowB2] [rowA1, rowA2] (exampleMerger UseA exampleStdin, [], Map.empty) =
   passA (buildBIndex (exampleMerger UseA exampleStdin) [rowB1old, rowB1, rowB2]) [rowB1old, rowB1, rowB2] [rowA1, rowA2] (exampleMerger UseA exampleStdin, [], Map.empty)"
proof -
  let ?m = "exampleMerger UseA exampleStdin"
  let ?B = "[rowB1old, rowB1, rowB2]"
  note inst = index_keeps_last_row[of ?m ?B _ _ _ _ "[rowA1, rowA2]" "(?m, [], Map.empty)"]
  have p1: "buildBIndex ?m ?B ''1'' = Some 1"
    using inst[of "''1''", THEN conjunct1] by (simp add: example_keys)
  have p2: "buildBIndex ?m ?B ''2'' = Some 2"
    using inst[of "''2''", THEN conjunct1] by (simp add: example_keys)
  have p3: "buildBIndex ?m ?B ''3'' = None"
    using inst[of "''3''", THEN conjunct1] by (simp add: example_keys)
  have p4: "0 \<notin> ran (buildBIndex ?m ?B)"
    using inst[of _ 0 1, THEN conjunct2, THEN conjunct2, THEN conjunct2, THEN conjunct1]
    by (simp add: example_keys)
  have p5: "passA (buildBIndex ?m [rowA1, rowB1, rowB2]) [rowA1, rowB1, rowB2] [rowA1, rowA2] (exampleMerger UseA exampleStdin, [], Map.empty) =
            passA (buildBIndex ?m ?B) ?B [rowA1, rowA2] (exampleMerger UseA exampleStdin, [], Map.empty)"
    using inst[of _ _ _ "[rowA1, rowB1, rowB2]", THEN conjunct2, THEN conjunct2, THEN conjunct2, THEN conjunct2]
    by (simp add: example_keys All_less_Suc del: passA.simps)
  show ?thesis using p1 p2 p3 p4 p5 by blast
qed

subsection \<open>Batched insertion (C7)\<close>

lemma batch_count_less:
  assumes "0 < (b::nat)"
  shows "(j::nat) < (n + b - 1) div b \<longleftrightarrow> j * b < n"
proof -
  have "j < (n + b - 1) div b \<longleftrightarrow> Suc j \<le> (n + b - 1) div b" by arith
  also have "\<dots> \<longleftrightarrow> Suc j * b \<le> n + b - 1"
    using assms by (simp add: less_eq_div_iff_mult_less_eq)
  also have "\<dots> \<longleftrightarrow> j * b < n" using assms by (cases n) auto
  finally show ?thesis .
qed

lemma batches_nth:
  "j < (length xs + b - 1) div b \<Longrightarrow> batches b xs ! j = take b (drop (j * b) xs)"
  by (simp add: batches_def)

lemma length_batches: "length (batches b xs) = (length xs + b - 1) div b"
  by (simp add: batches_def)

lemma concat_take_batches:
  "k \<le> (length xs + b - 1) div b \<Longrightarrow> concat (take k (batches b xs)) = take (k * b) xs"
proof (induction k)
  case 0
  show ?case by simp
next
  case (Suc k)
  then have k: "k < (length xs + b - 1) div b" by simp
  then have "take (Suc k) (batches b xs) = take k (batches b xs) @ [take b (drop (k * b) xs)]"
    by (simp add: take_Suc_conv_app_nth length_batches batches_nth)
  moreover have "take (Suc k * b) xs = take (k * b) xs @ take b (drop (k * b) xs)"
    using take_add[of "k * b" b xs] by (simp add: add.commute)
  ultimately show ?case using Suc by simp
qed

lemma concat_batches:
  assumes "0 < b"
  shows "concat (batches b xs) = xs"
proof -
  let ?N = "(length xs + b - 1) div b"
  have "\<not> ?N * b < length xs" using batch_count_less[OF assms, of ?N "length xs"] by simp
  then have "take (?N * b) xs = xs" by simp
  with concat_take_batches[of ?N xs b] show ?thesis by (simp add: length_batches)
qed

lemma batch_sizes:
  assumes "0 < b" and "j < length (batches b xs)"
  shows "length (batches b xs ! j) =
     (if Suc j < length (batches b xs) \<or> length xs mod b = 0 then b else length xs mod b)"
proof -
  let ?n = "length xs"
  let ?N = "(?n + b - 1) div b"
  from assms(2) have j: "j < ?N" by (simp add: length_batches)
  then have jb: "j * b < ?n" using batch_count_less[OF assms(1)] by simp
  have len: "length (batches b xs ! j) = min b (?n - j * b)"
    using j by (simp add: batches_nth min.commute)
  show ?thesis
  proof (cases "Suc j < ?N")
    case True
    then have "Suc j * b < ?n" using batch_count_less[OF assms(1)] by simp
    then have "b \<le> ?n - j * b" by simp
    with True len show ?thesis by (simp add: length_batches)
  next
    case False
    then have nl: "\<not> Suc j * b < ?n" using batch_count_less[OF assms(1)] by simp
    have dm: "?n = (?n div b) * b + ?n mod b" by simp
    show ?thesis
    proof (cases "?n mod b = 0")
      case True
      then obtain q where q: "?n = b * q" by (auto simp: mod_eq_0_iff_dvd)
      with jb have "j * b < q * b" by (simp add: mult.commute)
      then have "Suc j \<le> q" by simp
      then have "Suc j * b \<le> q * b" by (rule mult_le_mono1)
      with q have "b \<le> ?n - j * b" by (simp add: mult.commute)
      with True len show ?thesis by (simp add: length_batches)
    next
      case m: False
      have mb: "?n mod b < b" using assms(1) by simp
      have "j = ?n div b"
      proof -
        from jb have "j \<le> ?n div b"
          using assms(1) by (metis less_eq_div_iff_mult_less_eq less_imp_le_nat)
        moreover have "\<not> j < ?n div b"
        proof
          assume "j < ?n div b"
          then have "Suc j \<le> ?n div b" by simp
          then have "Suc j * b \<le> (?n div b) * b" by (rule mult_le_mono1)
          also have "\<dots> < ?n" using m dm by (metis add.commute less_add_same_cancel2 neq0_conv)
          finally show False using nl by simp
        qed
        ultimately show ?thesis by simp
      qed
      then have "?n - j * b = ?n mod b" using dm by (metis add_diff_cancel_left')
      with False m len mb show ?thesis by (simp add: length_batches min_def)
    qed
  qed
qed

lemma insertLoop_unfold:
  assumes bs: "BatchSize (config m) = int b" and b0: "0 < b"
  shows "insertLoop m af rows (int i) db =
     (if i < length rows then
        (case Exec db \<lparr>intoTable = TableC (config m), columns = af,
                        tuples = map (\<lambda>row. map (getVal row) af) (take b (drop i rows))\<rparr> of
           (db', Some err) \<Rightarrow> Some (Some (BatchInsertError err), db')
         | (db', None) \<Rightarrow> insertLoop m af rows (int (i + b)) db')
      else Some (None, db))"
proof (cases "i < length rows")
  case False
  then show ?thesis by (subst insertLoop.simps) (simp add: Let_def)
next
  case True
  let ?e = "if int (length rows) < int i + int b then int (length rows) else int i + int b"
  have tk: "take (nat (?e - int i)) (drop (nat (int i)) rows) = take b (drop i rows)"
    by auto
  have c1: "(int i < int (length rows)) = True" using True by simp
  have c2: "(int i < 0 \<or> ?e < int i) = False" using True by auto
  show ?thesis
    apply (subst insertLoop.simps)
    apply (simp only: Let_def bs tk c1 c2 True if_True if_False of_nat_add)
    done
qed

lemma insertLoop_runBatches:
  assumes bs: "BatchSize (config m) = int b" and b0: "0 < b"
  shows "insertLoop m (fieldNamesC m @ [''_source'', ''_conflict'', ''_diff_fields'']) rows (int (j * b)) db =
     Some (runBatches m (map (\<lambda>j. take b (drop (j * b) rows)) [j..<(length rows + b - 1) div b]) db)"
proof (induction "(length rows + b - 1) div b - j" arbitrary: j db)
  case 0
  then have "\<not> j < (length rows + b - 1) div b" by simp
  then have "\<not> j * b < length rows" using batch_count_less[OF b0] by simp
  with 0 show ?case
    unfolding insertLoop_unfold[OF bs b0, of _ _ "j * b"] by simp
next
  case (Suc d)
  then have j: "j < (length rows + b - 1) div b" by simp
  then have lt: "j * b < length rows" using batch_count_less[OF b0] by simp
  from Suc(2) have d: "d = (length rows + b - 1) div b - Suc j" by simp
  have nx: "j * b + b = Suc j * b" by simp
  let ?af = "fieldNamesC m @ [''_source'', ''_conflict'', ''_diff_fields'']"
  let ?f = "\<lambda>j. take b (drop (j * b) rows)"
  let ?N = "(length rows + b - 1) div b"
  have st: "stmtOf m (?f j) = \<lparr>intoTable = TableC (config m), columns = ?af,
                        tuples = map (\<lambda>row. map (getVal row) ?af) (?f j)\<rparr>"
    by (simp only: stmtOf_def Let_def)
  have step: "insertLoop m ?af rows (int (j * b)) db =
      (case Exec db (stmtOf m (?f j)) of
         (db', Some err) \<Rightarrow> Some (Some (BatchInsertError err), db')
       | (db', None) \<Rightarrow> insertLoop m ?af rows (int (Suc j * b)) db')"
    unfolding insertLoop_unfold[OF bs b0, of _ _ "j * b"] nx st
    by (simp only: lt if_True)
  have rb: "runBatches m (map ?f [j..<?N]) db =
      (case Exec db (stmtOf m (?f j)) of
         (db', Some e) \<Rightarrow> (Some (BatchInsertError e), db')
       | (db', None) \<Rightarrow> runBatches m (map ?f [Suc j..<?N]) db')"
    using j by (simp only: upt_conv_Cons list.map runBatches.simps)
  obtain db' v where ex: "Exec db (stmtOf m (?f j)) = (db', v)" by (cases "Exec db (stmtOf m (?f j))")
  show ?case
  proof (cases v)
    case None
    with ex step have "insertLoop m ?af rows (int (j * b)) db = insertLoop m ?af rows (int (Suc j * b)) db'"
      by simp
    also have "\<dots> = Some (runBatches m (map ?f [Suc j..<?N]) db')"
      using d by (rule Suc(1))
    also have "runBatches m (map ?f [Suc j..<?N]) db' = runBatches m (map ?f [j..<?N]) db"
      unfolding rb ex None by simp
    finally show ?thesis .
  next
    case (Some e)
    with ex step have "insertLoop m ?af rows (int (j * b)) db = Some (Some (BatchInsertError e), db')"
      by simp
    moreover have "runBatches m (map ?f [j..<?N]) db = (Some (BatchInsertError e), db')"
      unfolding rb ex Some by simp
    ultimately show ?thesis by simp
  qed
qed

lemma accepted_props:
  "(\<forall>j<accepted v c n. v (c + j) = None) \<and> accepted v c n \<le> n \<and>
   (accepted v c n < n \<longrightarrow> v (c + accepted v c n) \<noteq> None)"
proof (induction n arbitrary: c)
  case 0
  show ?case by simp
next
  case (Suc n)
  show ?case
  proof (cases "v c = None")
    case True
    have "v (c + j) = None" if "j < Suc (accepted v (Suc c) n)" for j
    proof (cases j)
      case 0
      with True show ?thesis by simp
    next
      case (Suc j')
      with that Suc.IH[of "Suc c"] show ?thesis by simp
    qed
    with True Suc.IH[of "Suc c"] show ?thesis by simp
  next
    case False
    then show ?thesis by auto
  qed
qed

lemma Exec_cases:
  "Exec db stmt =
     (case verdicts db (length (execLog db)) of
        None \<Rightarrow> (db\<lparr>execLog := execLog db @ [stmt],
                     tableRows := (tableRows db)(intoTable stmt := tableRows db (intoTable stmt) @ tuples stmt)\<rparr>,
                  None)
      | Some e \<Rightarrow> (db\<lparr>execLog := execLog db @ [stmt]\<rparr>, Some e))"
  by (simp add: Exec_def Let_def split: option.splits)

lemma runBatches_accepted:
  "fst (runBatches m bs db) =
     (if accepted (verdicts db) (length (execLog db)) (length bs) < length bs
      then Some (BatchInsertError
             (the (verdicts db (length (execLog db) +
                accepted (verdicts db) (length (execLog db)) (length bs)))))
      else None) \<and>
   execLog (snd (runBatches m bs db)) =
     execLog db @
     map (stmtOf m) (take (Suc (accepted (verdicts db) (length (execLog db)) (length bs))) bs) \<and>
   tableRows (snd (runBatches m bs db)) =
     (tableRows db)
       (TableC (config m) := tableRows db (TableC (config m)) @
          concat (map (\<lambda>batch. tuples (stmtOf m batch))
            (take (accepted (verdicts db) (length (execLog db)) (length bs)) bs))) \<and>
   verdicts (snd (runBatches m bs db)) = verdicts db"
proof (induction bs arbitrary: db)
  case Nil
  show ?case by simp
next
  case (Cons batch rest)
  have t: "intoTable (stmtOf m batch) = TableC (config m)" by (simp add: stmtOf_def Let_def)
  show ?case
  proof (cases "verdicts db (length (execLog db))")
    case None
    define db1 where "db1 = db\<lparr>execLog := execLog db @ [stmtOf m batch],
                   tableRows := (tableRows db)
                     (TableC (config m) := tableRows db (TableC (config m)) @ tuples (stmtOf m batch))\<rparr>"
    have f: "verdicts db1 = verdicts db" "execLog db1 = execLog db @ [stmtOf m batch]"
      "length (execLog db1) = Suc (length (execLog db))"
      "tableRows db1 = (tableRows db)
           (TableC (config m) := tableRows db (TableC (config m)) @ tuples (stmtOf m batch))"
      by (simp_all add: db1_def)
    from None have ex: "Exec db (stmtOf m batch) = (db1, None)"
      by (simp add: Exec_cases t db1_def)
    have r: "runBatches m (batch # rest) db = runBatches m rest db1"
      by (simp add: ex)
    have a: "accepted (verdicts db) (length (execLog db)) (length (batch # rest)) =
             Suc (accepted (verdicts db) (Suc (length (execLog db))) (length rest))"
      using None by simp
    show ?thesis
      unfolding r a using Cons.IH[of db1] unfolding f
      by (simp add: fun_eq_iff)
  next
    case (Some e)
    then have "Exec db (stmtOf m batch) = (db\<lparr>execLog := execLog db @ [stmtOf m batch]\<rparr>, Some e)"
      by (simp add: Exec_cases)
    with Some show ?thesis by simp
  qed
qed

lemma batches_example: "batches 2 [a, b, c, d, e] = [[a, b], [c, d], [e]]"
proof -
  have n: "(length [a, b, c, d, e] + 2 - 1) div 2 = 3" by simp
  have u: "[0..<3] = [0, 1, 2::nat]" by code_simp
  show ?thesis unfolding batches_def n u by simp
qed

text \<open>
  C7. For a non-empty list of \<open>n\<close> records and a batch size \<open>b > 0\<close>, batchInsertC
  returns, having issued one insert per consecutive slice of \<open>b\<close> records, \<open>ceil(n/b)\<close>
  in all when the store accepts them, the last slice holding \<open>n mod b\<close> records when that
  is not zero. When the store rejects an insert, the function returns the error at once:
  the rejected statement is the last one issued, and the records of the batches before it
  stay in the table.
\<close>

theorem batch_insert:
  assumes "rows \<noteq> []" and "0 < BatchSize (config m)"
  shows "\<exists>res db'. batchInsertC m rows db = Some (res, db') \<and>
     (let b = nat (BatchSize (config m)); bs = batches b rows; c = length (execLog db);
          k = accepted (verdicts db) c (length bs)
      in length bs = (length rows + b - 1) div b \<and> concat bs = rows \<and>
         (\<forall>j<length bs. length (bs ! j) =
            (if Suc j < length bs \<or> length rows mod b = 0 then b else length rows mod b)) \<and>
         (\<forall>j<k. verdicts db (c + j) = None) \<and>
         (k < length bs \<longrightarrow> verdicts db (c + k) \<noteq> None) \<and>
         res = (if k < length bs then Some (BatchInsertError (the (verdicts db (c + k)))) else None) \<and>
         execLog db' = execLog db @ map (stmtOf m) (take (Suc k) bs) \<and>
         tableRows db' =
           (tableRows db)
             (TableC (config m) := tableRows db (TableC (config m)) @
                map (\<lambda>row. map (getVal row)
                       (fieldNamesC m @ [''_source'', ''_conflict'', ''_diff_fields'']))
                  (take (k * b) rows)))"
proof -
  define b where "b = nat (BatchSize (config m))"
  define bs where "bs = batches b rows"
  define c where "c = length (execLog db)"
  define k where "k = accepted (verdicts db) c (length bs)"
  have bsz: "BatchSize (config m) = int b" and b0: "0 < b" using assms(2) by (simp_all add: b_def)
  have run: "batchInsertC m rows db = Some (runBatches m bs db)"
    using assms(1) insertLoop_runBatches[OF bsz b0, of rows 0 db]
    by (simp add: batchInsertC_def bs_def batches_def)
  note acc = accepted_props[of "verdicts db" c "length bs", folded k_def]
  note rb = runBatches_accepted[of m bs db, folded c_def, folded k_def]
  from acc have kle: "k \<le> (length rows + b - 1) div b" by (simp add: bs_def length_batches)
  have tup: "concat (map (\<lambda>batch. tuples (stmtOf m batch)) (take k bs)) =
        map (\<lambda>row. map (getVal row) (fieldNamesC m @ [''_source'', ''_conflict'', ''_diff_fields'']))
          (take (k * b) rows)"
    using concat_take_batches[OF kle, of ] 
    by (simp add: stmtOf_def Let_def bs_def map_concat[symmetric])
  have "length bs = (length rows + b - 1) div b" by (simp add: bs_def length_batches)
  moreover have "concat bs = rows" unfolding bs_def using b0 by (rule concat_batches)
  moreover have "\<forall>j<length bs. length (bs ! j) =
            (if Suc j < length bs \<or> length rows mod b = 0 then b else length rows mod b)"
    unfolding bs_def using batch_sizes[OF b0] by blast
  ultimately show ?thesis
    unfolding Let_def b_def[symmetric] bs_def[symmetric] c_def[symmetric] k_def[symmetric] run
    using acc rb tup by (cases "runBatches m bs db") simp
qed


theorem batch_insert_witness:
  "(\<exists>db'. batchInsertC (exampleMerger UseA exampleStdin) rows5 (exampleDb (\<lambda>k. None)) = Some (None, db') \<and>
       map (\<lambda>s. length (tuples s)) (execLog db') = [2, 2, 1] \<and>
       length (tableRows db' ''tc'') = 5) \<and>
   (\<exists>db'. batchInsertC (exampleMerger UseA exampleStdin) rows5
            (exampleDb (\<lambda>k. if k = 1 then Some ''rejected'' else None)) =
          Some (Some (BatchInsertError ''rejected''), db') \<and>
       map (\<lambda>s. length (tuples s)) (execLog db') = [2, 2] \<and>
       length (tableRows db' ''tc'') = 2)"
proof -
  let ?m = "exampleMerger UseA exampleStdin"
  have ne: "rows5 \<noteq> []" by (simp add: rows5_def)
  have bs: "0 < BatchSize (config ?m)"
    by (simp add: exampleMerger_def prepareFields_def NewMerger_def exampleConfig_def Let_def)
  have b: "nat (BatchSize (config ?m)) = 2" "TableC (config ?m) = ''tc''"
    by (simp_all add: exampleMerger_def prepareFields_def NewMerger_def exampleConfig_def Let_def)
  have btc: "batches 2 rows5 = [[rowA1, rowA2], [rowB1, rowB2], [rowB3]]"
    unfolding rows5_def by (rule batches_example)
  have a1: "accepted (\<lambda>k. None) 0 3 = 3" by (simp add: eval_nat_numeral)
  have a2: "accepted (\<lambda>k. if k = 1 then Some ''rejected'' else None) 0 3 = 1"
    by (simp add: eval_nat_numeral)
  have t: "length (tuples (stmtOf ?m batch)) = length batch" for batch
    by (simp add: stmtOf_def Let_def)
  have l5: "length rows5 = 5" by (simp add: rows5_def)
  from batch_insert[OF ne bs, of "exampleDb (\<lambda>k. None)"]
  have p1: "\<exists>db'. batchInsertC ?m rows5 (exampleDb (\<lambda>k. None)) = Some (None, db') \<and>
       map (\<lambda>s. length (tuples s)) (execLog db') = [2, 2, 1] \<and>
       length (tableRows db' ''tc'') = 5"
    by (auto simp: Let_def b btc a1 exampleDb_def t l5)
  from batch_insert[OF ne bs, of "exampleDb (\<lambda>k. if k = 1 then Some ''rejected'' else None)"]
  have p2: "\<exists>db'. batchInsertC ?m rows5
            (exampleDb (\<lambda>k. if k = 1 then Some ''rejected'' else None)) =
          Some (Some (BatchInsertError ''rejected''), db') \<and>
       map (\<lambda>s. length (tuples s)) (execLog db') = [2, 2] \<and>
       length (tableRows db' ''tc'') = 2"
    by (auto simp: Let_def b btc a2 exampleDb_def t l5)
  from p1 p2 show ?thesis by (rule conjI)
qed

subsection \<open>What the matching passes preserve\<close>

lemma sameSetup_refl [simp]: "sameSetup m m"
  by (simp add: sameSetup_def)

lemma sameSetup_trans: "sameSetup m m1 \<Longrightarrow> sameSetup m1 m2 \<Longrightarrow> sameSetup m m2"
  by (simp add: sameSetup_def)

lemma sameSetup_stats [simp]: "sameSetup m (m'\<lparr>stats := s\<rparr>) = sameSetup m m'"
  by (simp add: sameSetup_def)

lemma sameSetup_reader [simp]: "sameSetup m (m'\<lparr>stdinReader := r\<rparr>) = sameSetup m m'"
  by (simp add: sameSetup_def)

lemma sameSetup_buildKey: "sameSetup m m' \<Longrightarrow> buildKey m' = buildKey m"
  by (simp add: sameSetup_def buildKey_def fun_eq_iff)

lemma sameSetup_buildCRowFromB:
  assumes "sameSetup m m'"
  shows "buildCRowFromB m' = buildCRowFromB m"
proof -
  from assms have f: "ignoreSetB m' = ignoreSetB m" "bFieldInC m' = bFieldInC m"
    "fieldNamesC m' = fieldNamesC m" by (simp_all add: sameSetup_def)
  have c: "copyFromB m' = copyFromB m"
    by (intro ext) (simp add: copyFromB_def f split: option.splits)
  show ?thesis by (intro ext) (simp add: buildCRowFromB_def c f)
qed

lemma buildKey_stats [simp]: "buildKey (m\<lparr>stats := s\<rparr>) = buildKey m"
  by (rule sameSetup_buildKey) simp

lemma buildCRowFromB_stats [simp]: "buildCRowFromB (m\<lparr>stats := s\<rparr>) = buildCRowFromB m"
  by (rule sameSetup_buildCRowFromB) simp

lemma sameSetup_afterClassify [simp]: "sameSetup m (afterClassify m a b)"
  by (simp add: afterClassify_def countConflict_def bumpAutoFilled_def)

lemma OnlyInB_afterClassify [simp]: "OnlyInB (stats (afterClassify m a b)) = OnlyInB (stats m)"
  by (simp add: afterClassify_def countConflict_def bumpAutoFilled_def)

lemma chooseByStrategy_sameSetup:
  assumes "chooseByStrategy m fs a b = Some (c, m')"
  shows "sameSetup m m'" and "stats m' = stats m"
proof -
  from chooseByStrategy_Some[OF assms] have e: "m' = m\<lparr>stdinReader := stdinReader m'\<rparr>" by simp
  have "sameSetup m (m\<lparr>stdinReader := stdinReader m'\<rparr>)" by simp
  with e show "sameSetup m m'" by metis
  have "stats (m\<lparr>stdinReader := stdinReader m'\<rparr>) = stats m" by simp
  with e show "stats m' = stats m" by metis
qed

lemma compareAndMerge_sameSetup:
  assumes "compareAndMerge m a b k = Some (m', out)"
  shows "sameSetup m m'" and "OnlyInB (stats m') = OnlyInB (stats m)"
proof -
  have "sameSetup m m' \<and> OnlyInB (stats m') = OnlyInB (stats m)"
  proof (cases "findDiffFields m a b = []")
    case True
    with assms show ?thesis by (auto simp: compareAndMerge_exact)
  next
    case dne: False
    show ?thesis
    proof (cases "contestedFields m a b = []")
      case True
      with assms dne show ?thesis by (auto simp: compareAndMerge_auto)
    next
      case False
      with assms obtain c m3 where
        ch: "chooseByStrategy (afterClassify m a b) (contestedFields m a b) a b = Some (c, m3)"
        by (auto simp: compareAndMerge_contested split: option.splits)
      from chooseByStrategy_sameSetup[OF ch]
      have "sameSetup m m3" "OnlyInB (stats m3) = OnlyInB (stats m)"
        using sameSetup_trans[OF sameSetup_afterClassify] by auto
      with assms compareAndMerge_chosen[OF False ch, of k] show ?thesis
        by (auto split: if_splits)
    qed
  qed
  then show "sameSetup m m'" and "OnlyInB (stats m') = OnlyInB (stats m)" by simp_all
qed

lemma matchRowA_step:
  assumes "matchRowA bIndex dataB rowA (m, rows, bm) = Some (m', rows', bm')"
  shows "sameSetup m m'" and "OnlyInB (stats m') = OnlyInB (stats m)"
    and "\<exists>r. rows' = rows @ [r]"
    and "isSet bm' k = (isSet bm k \<or> (k = buildKey m rowA \<and> bIndex k \<noteq> None))"
proof -
  have "sameSetup m m' \<and> OnlyInB (stats m') = OnlyInB (stats m) \<and> (\<exists>r. rows' = rows @ [r]) \<and>
        isSet bm' k = (isSet bm k \<or> (k = buildKey m rowA \<and> bIndex k \<noteq> None))"
  proof (cases "bIndex (buildKey m rowA)")
    case None
    with assms show ?thesis by (auto simp: matchRowA_def Let_def)
  next
    case (Some i)
    with assms obtain out where
      cm: "compareAndMerge m rowA (dataB ! i) (buildKey m rowA) = Some (m', out)"
      and r: "rows' = rows @ [out]" and b: "bm' = bm(buildKey m rowA \<mapsto> True)"
      by (auto simp: matchRowA_def Let_def split: option.splits)
    from compareAndMerge_sameSetup[OF cm] r b Some show ?thesis
      by (auto simp: isSet_def)
  qed
  then show "sameSetup m m'" and "OnlyInB (stats m') = OnlyInB (stats m)"
    and "\<exists>r. rows' = rows @ [r]"
    and "isSet bm' k = (isSet bm k \<or> (k = buildKey m rowA \<and> bIndex k \<noteq> None))"
    by simp_all
qed

lemma passA_invariant:
  "passA bIndex dataB dataA (m, rows, bm) = Some (m', rows', bm') \<Longrightarrow>
   sameSetup m m' \<and> OnlyInB (stats m') = OnlyInB (stats m) \<and>
   (\<exists>new. rows' = rows @ new \<and> length new = length dataA) \<and>
   (\<forall>k. isSet bm' k = (isSet bm k \<or> (k \<in> buildKey m ` set dataA \<and> bIndex k \<noteq> None)))"
proof (induction dataA arbitrary: m rows bm)
  case Nil
  then show ?case by simp
next
  case (Cons rowA rest)
  from Cons.prems obtain m1 rows1 bm1 where
    step: "matchRowA bIndex dataB rowA (m, rows, bm) = Some (m1, rows1, bm1)"
    and rest: "passA bIndex dataB rest (m1, rows1, bm1) = Some (m', rows', bm')"
    by (auto split: option.splits)
  note s = matchRowA_step[OF step]
  note ih = Cons.IH[OF rest]
  from s(3) obtain r where r: "rows1 = rows @ [r]" by blast
  from ih obtain new where new: "rows' = rows1 @ new" "length new = length rest" by blast
  have k: "buildKey m1 = buildKey m" using s(1) by (rule sameSetup_buildKey)
  have "rows' = rows @ (r # new)" "length (r # new) = length (rowA # rest)"
    using r new by simp_all
  then have ex: "\<exists>new. rows' = rows @ new \<and> length new = length (rowA # rest)" by blast
  have bmk: "isSet bm' k = (isSet bm k \<or> (k \<in> buildKey m ` set (rowA # rest) \<and> bIndex k \<noteq> None))" for k
    using ih s(4)[of k] k by auto
  from sameSetup_trans[OF s(1)] ih s(2) ex bmk show ?case by auto
qed

lemma passB_fold:
  "fold (onlyInBStep bm) dataB (m, rows) =
     (bumpOnlyInB (length (filter (\<lambda>rowB. \<not> isSet bm (buildKey m rowB)) dataB)) m,
      rows @ map (buildCRowFromB m) (filter (\<lambda>rowB. \<not> isSet bm (buildKey m rowB)) dataB))"
proof (induction dataB arbitrary: m rows)
  case Nil
  show ?case by (simp add: bumpOnlyInB_def)
next
  case (Cons rowB rest)
  show ?case
  proof (cases "isSet bm (buildKey m rowB)")
    case True
    then have "onlyInBStep bm rowB (m, rows) = (m, rows)"
      by (simp add: onlyInBStep_def)
    then show ?thesis using True by (simp add: Cons.IH)
  next
    case False
    then have "onlyInBStep bm rowB (m, rows) = (bumpOnlyInB 1 m, rows @ [buildCRowFromB m rowB])"
      by (simp add: onlyInBStep_def Let_def bumpOnlyInB_def)
    then show ?thesis using False
      by (simp add: Cons.IH bumpOnlyInB_def)
  qed
qed

lemma matchRowA_returns:
  assumes "answers m"
  shows "\<exists>res. matchRowA bIndex dataB rowA (m, rows, bm) = Some res"
proof (cases "bIndex (buildKey m rowA)")
  case None
  then show ?thesis by (simp add: matchRowA_def Let_def)
next
  case (Some i)
  from compareAndMerge_returns[OF assms, of rowA "dataB ! i" "buildKey m rowA"]
  obtain m' out where "compareAndMerge m rowA (dataB ! i) (buildKey m rowA) = Some (m', out)"
    by auto
  with Some show ?thesis by (simp add: matchRowA_def Let_def)
qed

lemma passA_returns:
  "Strategy (config m) \<noteq> AskUser \<Longrightarrow> \<exists>res. passA bIndex dataB dataA (m, rows, bm) = Some res"
proof (induction dataA arbitrary: m rows bm)
  case Nil
  show ?case by simp
next
  case (Cons rowA rest)
  from Cons.prems have "answers m" by (simp add: answers_def)
  from matchRowA_returns[OF this, of bIndex dataB rowA rows bm]
  obtain m1 rows1 bm1 where step: "matchRowA bIndex dataB rowA (m, rows, bm) = Some (m1, rows1, bm1)"
    by (metis prod_cases3)
  from matchRowA_step(1)[OF step] Cons.prems have "Strategy (config m1) \<noteq> AskUser"
    by (simp add: sameSetup_def)
  from Cons.IH[OF this, of rows1 bm1] step show ?case by simp
qed

lemma mergeRows_result:
  assumes "mergeRows m dataA dataB = Some (m', resultRows)"
  obtains m1 rowsA bm where
    "passA (buildBIndex m dataB) dataB dataA (m, [], Map.empty) = Some (m1, rowsA, bm)"
    and "sameSetup m m1" and "OnlyInB (stats m1) = OnlyInB (stats m)"
    and "length rowsA = length dataA"
    and "m' = bumpOnlyInB (length (unmatchedB m dataA dataB)) m1"
    and "resultRows = rowsA @ map (buildCRowFromB m) (unmatchedB m dataA dataB)"
proof -
  from assms obtain m1 rowsA bm where
    pa: "passA (buildBIndex m dataB) dataB dataA (m, [], Map.empty) = Some (m1, rowsA, bm)"
    and pb: "fold (onlyInBStep bm) dataB (m1, rowsA) = (m', resultRows)"
    by (auto simp: mergeRows_def Let_def split: option.splits)
  note inv = passA_invariant[OF pa]
  from inv have same: "sameSetup m m1" and ob: "OnlyInB (stats m1) = OnlyInB (stats m)"
    and len: "length rowsA = length dataA"
    and bm: "\<And>k. isSet bm k = (k \<in> buildKey m ` set dataA \<and> buildBIndex m dataB k \<noteq> None)"
    by (auto simp: isSet_def)
  have k: "buildKey m1 = buildKey m" using same by (rule sameSetup_buildKey)
  have b: "buildCRowFromB m1 = buildCRowFromB m" using same by (rule sameSetup_buildCRowFromB)
  have "filter (\<lambda>rowB. \<not> isSet bm (buildKey m1 rowB)) dataB = unmatchedB m dataA dataB"
    unfolding unmatchedB_def k
  proof (rule filter_cong[OF refl])
    fix rowB assume "rowB \<in> set dataB"
    then have "buildBIndex m dataB (buildKey m rowB) \<noteq> None"
      by (simp add: buildBIndex_None)
    then show "(\<not> isSet bm (buildKey m rowB)) = (buildKey m rowB \<notin> buildKey m ` set dataA)"
      by (simp add: bm)
  qed
  with pb have "m' = bumpOnlyInB (length (unmatchedB m dataA dataB)) m1"
    and "resultRows = rowsA @ map (buildCRowFromB m) (unmatchedB m dataA dataB)"
    by (simp_all add: passB_fold b)
  with pa same ob len show thesis using that by blast
qed

lemma mergeRows_returns:
  assumes "Strategy (config m) \<noteq> AskUser"
  shows "\<exists>m' resultRows. mergeRows m dataA dataB = Some (m', resultRows)"
proof -
  from passA_returns[OF assms, of "buildBIndex m dataB" dataB dataA "[]" Map.empty]
  obtain ma rowsA bm where "passA (buildBIndex m dataB) dataB dataA (m, [], Map.empty) = Some (ma, rowsA, bm)"
    by (metis prod_cases3)
  then show ?thesis by (simp add: mergeRows_def Let_def split: prod.splits)
qed

lemma prepareFields_config [simp]: "config (prepareFields m namesA namesB) = config m"
  by (simp add: prepareFields_def Let_def)

lemma prepareFields_stats [simp]: "stats (prepareFields m namesA namesB) = stats m"
  by (simp add: prepareFields_def Let_def)

lemma buildKey_config: "config m' = config m \<Longrightarrow> buildKey m' = buildKey m"
  by (simp add: buildKey_def fun_eq_iff)

lemma accepted_all: "\<forall>j. v j = None \<Longrightarrow> accepted v c n = n"
  by (induction n arbitrary: c) simp_all

lemma batchInsertC_accepts:
  assumes "0 < BatchSize (config m)" and "\<forall>j. verdicts db j = None"
  shows "\<exists>db'. batchInsertC m rows db = Some (None, db')"
proof (cases "rows = []")
  case True
  then show ?thesis by (simp add: batchInsertC_def)
next
  case False
  define b where "b = nat (BatchSize (config m))"
  have bsz: "BatchSize (config m) = int b" and b0: "0 < b" using assms(1) by (simp_all add: b_def)
  have run: "batchInsertC m rows db = Some (runBatches m (batches b rows) db)"
    using False insertLoop_runBatches[OF bsz b0, of rows 0 db]
    by (simp add: batchInsertC_def batches_def)
  have "fst (runBatches m (batches b rows) db) = None"
    using runBatches_accepted[of m "batches b rows" db] accepted_all[OF assms(2)] by simp
  with run show ?thesis by (cases "runBatches m (batches b rows) db") simp
qed

lemma Run_returns:
  assumes "Strategy (config m) \<noteq> AskUser" and "0 < BatchSize (config m)"
    and "\<forall>j. verdicts db j = None"
  shows "\<exists>report m1 db1. Run m namesA namesB dataA dataB db = Some (Inr report, m1, db1)"
proof -
  define m3 where "m3 = (prepareFields (m\<lparr>stats := emptyStats\<rparr>) namesA namesB)
        \<lparr>stats := emptyStats\<lparr>TotalA := length dataA, TotalB := length dataB\<rparr>\<rparr>"
  have c3: "config m3 = config m" by (simp add: m3_def)
  with assms(1) have "Strategy (config m3) \<noteq> AskUser" by simp
  from mergeRows_returns[OF this, of dataA dataB]
  obtain m4 resultRows where mr: "mergeRows m3 dataA dataB = Some (m4, resultRows)" by blast
  from mr obtain m' where "sameSetup m3 m'" and "m4 = bumpOnlyInB (length (unmatchedB m3 dataA dataB)) m'"
    by (rule mergeRows_result)
  then have "config m4 = config m" using c3 by (simp add: sameSetup_def bumpOnlyInB_def)
  with assms(2) have "0 < BatchSize (config m4)" by simp
  from batchInsertC_accepts[OF this assms(3), of resultRows]
  obtain db' where "batchInsertC m4 resultRows db = Some (None, db')" by blast
  with mr show ?thesis by (simp add: Run_def Let_def m3_def)
qed

subsection \<open>The rows only in B (C10)\<close>

lemma example_key_dup: "buildKey (exampleMerger s r) rowB3dup = ''3''"
  by (simp add: buildKey_def exampleMerger_simps rowB3dup_def mkRow_def getVal_def)

text \<open>
  C10. The pass over B emits one output record for every row of B whose key is the key of no
  row of A, each member of a group of such rows with one key included, after the records of
  the pass over A. The counter of rows only in B counts these rows, not their distinct keys.
  Under a strategy that asks nothing the passes return.
\<close>

theorem only_in_B_rows:
  "(mergeRows m dataA dataB = Some (m', resultRows) \<longrightarrow>
      (\<exists>rowsA. length rowsA = length dataA \<and>
         resultRows = rowsA @ map (buildCRowFromB m)
           (filter (\<lambda>rowB. buildKey m rowB \<notin> buildKey m ` set dataA) dataB)) \<and>
      OnlyInB (stats m') =
        OnlyInB (stats m) +
        length (filter (\<lambda>rowB. buildKey m rowB \<notin> buildKey m ` set dataA) dataB)) \<and>
   (Strategy (config m) \<noteq> AskUser \<longrightarrow> (\<exists>res. mergeRows m dataA dataB = Some res)) \<and>
   (Run m0 namesA namesB dataA dataB db = Some (Inr report, m1, db1) \<longrightarrow>
      OnlyInB report =
        length (filter (\<lambda>rowB. buildKey m0 rowB \<notin> buildKey m0 ` set dataA) dataB))"
proof -
  have 1: "(\<exists>rowsA. length rowsA = length dataA \<and>
         resultRows = rowsA @ map (buildCRowFromB m) (unmatchedB m dataA dataB)) \<and>
      OnlyInB (stats m') = OnlyInB (stats m) + length (unmatchedB m dataA dataB)"
    if "mergeRows m dataA dataB = Some (m', resultRows)" for m m' resultRows
    using that by (rule mergeRows_result) (auto simp: bumpOnlyInB_def)
  have 2: "\<exists>res. mergeRows m dataA dataB = Some res" if "Strategy (config m) \<noteq> AskUser"
  proof -
    from passA_returns[OF that, of "buildBIndex m dataB" dataB dataA "[]" Map.empty]
    obtain ma rowsA bm where "passA (buildBIndex m dataB) dataB dataA (m, [], Map.empty) = Some (ma, rowsA, bm)"
      by (metis prod_cases3)
    then show ?thesis by (simp add: mergeRows_def Let_def split: prod.splits)
  qed
  have 3: "OnlyInB report = length (unmatchedB m0 dataA dataB)"
    if run: "Run m0 namesA namesB dataA dataB db = Some (Inr report, m1, db1)"
  proof -
    define m3 where "m3 = (prepareFields (m0\<lparr>stats := emptyStats\<rparr>) namesA namesB)
        \<lparr>stats := emptyStats\<lparr>TotalA := length dataA, TotalB := length dataB\<rparr>\<rparr>"
    from run obtain m4 resultRows where
      mr: "mergeRows m3 dataA dataB = Some (m4, resultRows)"
      and rep: "report = (stats m4)\<lparr>TotalC := length resultRows\<rparr>"
      by (auto simp: Run_def Let_def m3_def split: option.splits prod.splits)
    have "config m3 = config m0" by (simp add: m3_def)
    then have k: "buildKey m3 = buildKey m0" by (rule buildKey_config)
    have "OnlyInB (stats m3) = 0" by (simp add: m3_def emptyStats_def)
    with 1[OF mr] rep show ?thesis by (simp add: unmatchedB_def k)
  qed
  from 1[of m m' resultRows] 2 3 show ?thesis unfolding unmatchedB_def by blast
qed


theorem only_in_B_rows_witness:
  "(\<exists>m' rowsA. mergeRows (exampleMerger UseA exampleStdin) [rowA1] [rowB3, rowB1, rowB3dup] =
       Some (m', rowsA @ [buildCRowFromB (exampleMerger UseA exampleStdin) rowB3,
                          buildCRowFromB (exampleMerger UseA exampleStdin) rowB3dup]) \<and>
     length rowsA = 1 \<and> OnlyInB (stats m') = 2) \<and>
   (\<exists>report m1 db1.
      Run (exampleMerger UseA exampleStdin) [''k'', ''x'', ''y'', ''z''] [''k'', ''x'', ''y'', ''z'']
        [rowA1] [rowB3, rowB1, rowB3dup] (exampleDb (\<lambda>k. None)) = Some (Inr report, m1, db1) \<and>
      OnlyInB report = 2)"
proof -
  let ?m = "exampleMerger UseA exampleStdin"
  let ?B = "[rowB3, rowB1, rowB3dup]"
  let ?names = "[''k'', ''x'', ''y'', ''z'']"
  have s: "Strategy (config ?m) \<noteq> AskUser" by (simp add: exampleMerger_simps)
  from only_in_B_rows[of ?m "[rowA1]" ?B, THEN conjunct2, THEN conjunct1] s
  obtain m' resultRows where mr: "mergeRows ?m [rowA1] ?B = Some (m', resultRows)" by auto
  have e: "OnlyInB emptyStats = 0" by (simp add: emptyStats_def)
  from only_in_B_rows[of ?m "[rowA1]" ?B m' resultRows, THEN conjunct1] mr
  have "\<exists>rowsA. length rowsA = 1 \<and>
         resultRows = rowsA @ [buildCRowFromB ?m rowB3, buildCRowFromB ?m rowB3dup]"
    and "OnlyInB (stats m') = 2"
    by (simp_all add: example_keys example_key_dup exampleMerger_simps e)
  with mr have p1: "\<exists>m' rowsA. mergeRows ?m [rowA1] ?B =
       Some (m', rowsA @ [buildCRowFromB ?m rowB3, buildCRowFromB ?m rowB3dup]) \<and>
     length rowsA = 1 \<and> OnlyInB (stats m') = 2"
    by auto
  have bs: "0 < BatchSize (config ?m)"
    by (simp add: exampleMerger_def NewMerger_def exampleConfig_def Let_def)
  have v: "\<forall>j. verdicts (exampleDb (\<lambda>k. None)) j = None" by (simp add: exampleDb_def)
  from Run_returns[OF s bs v, of ?names ?names "[rowA1]" ?B]
  obtain report m1 db1 where
    run: "Run ?m ?names ?names [rowA1] ?B (exampleDb (\<lambda>k. None)) = Some (Inr report, m1, db1)"
    by blast
  from only_in_B_rows[of _ "[rowA1]" ?B _ _ ?m ?names ?names "exampleDb (\<lambda>k. None)" report m1 db1,
      THEN conjunct2, THEN conjunct2] run
  have "OnlyInB report = 2"
    by (simp add: example_keys example_key_dup)
  with run have p2: "\<exists>report m1 db1.
      Run ?m ?names ?names [rowA1] ?B (exampleDb (\<lambda>k. None)) = Some (Inr report, m1, db1) \<and>
      OnlyInB report = 2"
    by blast
  from p1 p2 show ?thesis by (rule conjI)
qed

subsection \<open>The provenance columns (C9)\<close>

lemma provenance_fromA: "provenanceOK (buildCRowFromAWithMeta m rowA ''A'' False [])"
  by (simp add: provenanceOK_def buildCRowFromAWithMeta_def withMeta_source withMeta_conflict
        withMeta_diff)

lemma provenance_fromB: "provenanceOK (buildCRowFromB m rowB)"
  by (simp add: provenanceOK_def buildCRowFromB_def strPtr_def)

lemma provenance_merged:
  "d \<noteq> [] \<Longrightarrow> src = ''MERGE_A'' \<or> src = ''MERGE_B'' \<Longrightarrow>
   provenanceOK (buildCRowMerged m mg src True d)"
  by (auto simp: provenanceOK_def buildCRowMerged_meta)

lemma compareAndMerge_provenance:
  assumes "[] \<notin> set (compareFields m)" and "compareAndMerge m a b k = Some (m', out)"
  shows "provenanceOK out"
proof (cases "findDiffFields m a b = []")
  case True
  with assms(2) show ?thesis by (auto simp: compareAndMerge_exact provenance_fromA)
next
  case dne: False
  note d = diffStr_nonempty_compare[OF assms(1) dne, of "'',''"]
  show ?thesis
  proof (cases "contestedFields m a b = []")
    case True
    with assms(2) dne d show ?thesis by (auto simp: compareAndMerge_auto provenance_merged)
  next
    case False
    with assms(2) obtain c m3 where
      ch: "chooseByStrategy (afterClassify m a b) (contestedFields m a b) a b = Some (c, m3)"
      by (auto simp: compareAndMerge_contested split: option.splits)
    from assms(2) compareAndMerge_chosen[OF False ch, of k] d show ?thesis
      by (auto simp: provenance_merged split: if_splits)
  qed
qed

lemma matchRowA_provenance:
  assumes "[] \<notin> set (compareFields m)"
    and "matchRowA bIndex dataB rowA (m, rows, bm) = Some (m', rows', bm')"
  shows "\<exists>r. rows' = rows @ [r] \<and> provenanceOK r"
proof (cases "bIndex (buildKey m rowA)")
  case None
  with assms(2) show ?thesis by (auto simp: matchRowA_def Let_def provenance_fromA)
next
  case (Some i)
  with assms(2) obtain out where
    cm: "compareAndMerge m rowA (dataB ! i) (buildKey m rowA) = Some (m', out)"
    and r: "rows' = rows @ [out]"
    by (auto simp: matchRowA_def Let_def split: option.splits)
  from compareAndMerge_provenance[OF assms(1) cm] r show ?thesis by blast
qed

lemma passA_provenance:
  "[] \<notin> set (compareFields m) \<Longrightarrow>
   passA bIndex dataB dataA (m, rows, bm) = Some (m', rows', bm') \<Longrightarrow>
   \<forall>r \<in> set rows. provenanceOK r \<Longrightarrow> \<forall>r \<in> set rows'. provenanceOK r"
proof (induction dataA arbitrary: m rows bm)
  case Nil
  then show ?case by simp
next
  case (Cons rowA rest)
  from Cons.prems(2) obtain m1 rows1 bm1 where
    step: "matchRowA bIndex dataB rowA (m, rows, bm) = Some (m1, rows1, bm1)"
    and rest: "passA bIndex dataB rest (m1, rows1, bm1) = Some (m', rows', bm')"
    by (auto split: option.splits)
  from matchRowA_step(1)[OF step] Cons.prems(1) have c: "[] \<notin> set (compareFields m1)"
    by (simp add: sameSetup_def)
  from matchRowA_provenance[OF Cons.prems(1) step] Cons.prems(3)
  have "\<forall>r \<in> set rows1. provenanceOK r" by auto
  from Cons.IH[OF c rest this] show ?case .
qed

lemma prepareFields_compareFields:
  "compareFields (prepareFields m namesA namesB) =
     filter (\<lambda>f. f \<notin> set (KeyFields (config m)) \<and> \<not> isSet (ignoreSetA m) f) namesA"
proof -
  have k: "isSet (fold (\<lambda>k s. s(k \<mapsto> True)) ks s0) f = (f \<in> set ks \<or> isSet s0 f)" for ks s0 f
    by (induction ks arbitrary: s0) (auto simp: isSet_def)
  have c: "fold (\<lambda>f cs. if P f then cs @ [f] else cs) fs acc = acc @ filter P fs" for P fs acc
    by (induction fs arbitrary: acc) auto
  have e: "isSet Map.empty f = False" for f by (simp add: isSet_def)
  show ?thesis
    by (simp add: prepareFields_def Let_def c k e)
qed

lemma prepareFields_schemaOK:
  assumes "[] \<notin> set namesA" and "''_source'' \<notin> set namesA" and "''_conflict'' \<notin> set namesA"
    and "''_diff_fields'' \<notin> set namesA"
  shows "schemaOK (prepareFields m namesA namesB)"
  using assms by (auto simp: schemaOK_def prepareFields_compareFields) (simp_all add: prepareFields_def Let_def)

text \<open>
  C9. Every output record that the three builders produce during a run satisfies: the
  conflict flag is 1 iff the source is MERGE_A or MERGE_B iff the differing fields are not
  NULL (a non-empty comma-joined list); a record with source A or B has conflict flag 0 and
  NULL differing fields. Column names are non-empty, as the store guarantees.
\<close>

theorem provenance_invariant:
  assumes "[] \<notin> set (compareFields m)"
    and "mergeRows m dataA dataB = Some (m', resultRows)"
    and "r \<in> set resultRows"
  shows "(Values r ''_source'' = Some (Some ''A'') \<or> Values r ''_source'' = Some (Some ''B'') \<or>
          Values r ''_source'' = Some (Some ''MERGE_A'') \<or>
          Values r ''_source'' = Some (Some ''MERGE_B'')) \<and>
         ((Values r ''_conflict'' = Some (Some ''1'')) =
            (Values r ''_source'' = Some (Some ''MERGE_A'') \<or>
             Values r ''_source'' = Some (Some ''MERGE_B''))) \<and>
         ((Values r ''_conflict'' = Some (Some ''1'')) =
            (\<exists>s. s \<noteq> [] \<and> Values r ''_diff_fields'' = Some (Some s))) \<and>
         (Values r ''_source'' = Some (Some ''A'') \<or> Values r ''_source'' = Some (Some ''B'') \<longrightarrow>
            Values r ''_conflict'' = Some (Some ''0'') \<and> Values r ''_diff_fields'' = Some None)"
proof -
  from assms(2) obtain m1 rowsA bm where
    pa: "passA (buildBIndex m dataB) dataB dataA (m, [], Map.empty) = Some (m1, rowsA, bm)"
    and rr: "resultRows = rowsA @ map (buildCRowFromB m) (unmatchedB m dataA dataB)"
    by (rule mergeRows_result)
  from passA_provenance[OF assms(1) pa] have "\<forall>r \<in> set rowsA. provenanceOK r" by simp
  with rr assms(3) have "provenanceOK r" by (auto simp: provenance_fromB)
  then show ?thesis unfolding provenanceOK_def Let_def by auto
qed

theorem provenance_invariant_witness:
  "\<exists>m' resultRows. mergeRows (exampleMerger UseB exampleStdin) [rowA1, rowA2] [rowB1, rowB2, rowB3] =
        Some (m', resultRows) \<and> length resultRows = 3 \<and>
     (\<forall>r \<in> set resultRows.
        ((Values r ''_conflict'' = Some (Some ''1'')) =
            (Values r ''_source'' = Some (Some ''MERGE_A'') \<or>
             Values r ''_source'' = Some (Some ''MERGE_B''))) \<and>
        ((Values r ''_conflict'' = Some (Some ''1'')) =
            (\<exists>s. s \<noteq> [] \<and> Values r ''_diff_fields'' = Some (Some s))) \<and>
        (Values r ''_source'' = Some (Some ''A'') \<or> Values r ''_source'' = Some (Some ''B'') \<longrightarrow>
            Values r ''_conflict'' = Some (Some ''0'') \<and> Values r ''_diff_fields'' = Some None))"
proof -
  let ?m = "exampleMerger UseB exampleStdin"
  have s: "Strategy (config ?m) \<noteq> AskUser" by (simp add: exampleMerger_simps)
  have c: "[] \<notin> set (compareFields ?m)" by (simp add: exampleMerger_simps)
  from mergeRows_returns[OF s, of "[rowA1, rowA2]" "[rowB1, rowB2, rowB3]"]
  obtain m' resultRows where mr: "mergeRows ?m [rowA1, rowA2] [rowB1, rowB2, rowB3] = Some (m', resultRows)"
    by blast
  from mr have "\<exists>rowsA. length rowsA = length [rowA1, rowA2] \<and>
      resultRows = rowsA @ map (buildCRowFromB ?m) (unmatchedB ?m [rowA1, rowA2] [rowB1, rowB2, rowB3])"
    by (rule mergeRows_result) blast
  then have len: "length resultRows = 3"
    by (auto simp: unmatchedB_def example_keys)
  from provenance_invariant[OF c mr] mr len show ?thesis by blast
qed

end
